theory Spec2Isabelle
  imports Main "HOL-Library.Word"
begin

section \<open>Levels (logger.go)\<close>

text \<open>
  \<^verbatim>\<open>type Level int\<close> with the constants \<^verbatim>\<open>DebugLevel = iota\<close> ... \<^verbatim>\<open>FatalLevel\<close>.
  A level is an integer; the level gate compares integers.
\<close>

type_synonym Level = int

definition DebugLevel :: Level where "DebugLevel = 0"
definition InfoLevel :: Level where "InfoLevel = 1"
definition WarnLevel :: Level where "WarnLevel = 2"
definition ErrorLevel :: Level where "ErrorLevel = 3"
definition FatalLevel :: Level where "FatalLevel = 4"

lemmas Level_defs = DebugLevel_def InfoLevel_def WarnLevel_def ErrorLevel_def FatalLevel_def

text \<open>\<^verbatim>\<open>func (l Level) String() string\<close>: a switch with a default.\<close>

definition Level_String :: "Level \<Rightarrow> string" where
  "Level_String l =
     (if l = DebugLevel then ''DEBUG''
      else if l = InfoLevel then ''INFO''
      else if l = WarnLevel then ''WARN''
      else if l = ErrorLevel then ''ERROR''
      else if l = FatalLevel then ''FATAL''
      else ''UNKNOWN'')"

text \<open>
  \<^verbatim>\<open>func ParseLevel(s string) Level\<close>: a switch on the string itself; each case lists
  the spellings it accepts, the default is \<^verbatim>\<open>InfoLevel\<close>.
\<close>

definition ParseLevel :: "string \<Rightarrow> Level" where
  "ParseLevel s =
     (if s = ''debug'' \<or> s = ''DEBUG'' then DebugLevel
      else if s = ''info'' \<or> s = ''INFO'' then InfoLevel
      else if s = ''warn'' \<or> s = ''WARN'' \<or> s = ''warning'' \<or> s = ''WARNING'' then WarnLevel
      else if s = ''error'' \<or> s = ''ERROR'' then ErrorLevel
      else if s = ''fatal'' \<or> s = ''FATAL'' then FatalLevel
      else InfoLevel)"

section \<open>Entries, sinks, hooks (formatter/formatter.go, sink package, logger.go)\<close>

text \<open>
  A Go value of type \<^verbatim>\<open>any\<close> is either a string (the only dynamic type the code tests
  for, in \<^verbatim>\<open>With\<close>) or some other value. An \<^verbatim>\<open>error\<close> is its message; \<open>None\<close> of
  type \<open>error option\<close> is the nil error. A \<^verbatim>\<open>slog.Attr\<close> is its key with the result of
  \<^verbatim>\<open>Value.Any()\<close>. A \<^verbatim>\<open>context.Context\<close> is an opaque handle of type \<open>'c\<close>; \<open>None\<close>
  is the nil context.
\<close>

datatype 'a any = AnyString string | AnyOther 'a

type_synonym error = string

type_synonym 'a Attr = "string \<times> 'a any"

record ('a, 'c) Entry =
  Time :: string
  Level :: string
  Message :: string
  Fields :: "string \<rightharpoonup> 'a any"
  Caller :: string
  Context :: "'c option"

text \<open>
  Sinks, hooks, the context extractor and the error handler are caller-supplied code with
  effects of their own. They act on a world state \<open>'w\<close>: a call takes the world and
  returns its result with the new world. A hook receives a pointer to the entry and may
  change it, so it returns the entry as it leaves it. A sink's \<^verbatim>\<open>Write\<close> reads the entry.
\<close>

record ('a, 'c, 'w) Sink =
  Write :: "('a, 'c) Entry \<Rightarrow> 'w \<Rightarrow> error option \<times> 'w"
  Close :: "'w \<Rightarrow> error option \<times> 'w"

type_synonym ('a, 'c, 'w) Hook =
  "'c option \<Rightarrow> ('a, 'c) Entry \<Rightarrow> 'w \<Rightarrow> error option \<times> ('a, 'c) Entry \<times> 'w"

type_synonym ('a, 'c, 'w) ContextExtractor = "'c \<Rightarrow> 'w \<Rightarrow> 'a Attr list \<times> 'w"

type_synonym 'w ErrorHandler = "error \<Rightarrow> 'w \<Rightarrow> 'w"

text \<open>\<^verbatim>\<open>type Logger struct\<close>; the lock is not modelled (one call at a time).\<close>

record ('a, 'c, 'w) Logger =
  level :: Level
  sinks :: "('a, 'c, 'w) Sink list"
  fields_map :: "string \<rightharpoonup> 'a any"
  addCaller :: bool
  timeFormat :: string
  errorHandler :: "'w ErrorHandler option"
  extractor :: "('a, 'c, 'w) ContextExtractor option"
  hooks :: "('a, 'c, 'w) Hook list"

definition RFC3339Nano :: string where
  "RFC3339Nano = ''2006-01-02T15:04:05.999999999Z07:00''"

text \<open>The options of \<^verbatim>\<open>New\<close>, and \<^verbatim>\<open>New\<close> itself: the defaults, then each option in turn.\<close>

definition WithLevel :: "Level \<Rightarrow> ('a, 'c, 'w) Logger \<Rightarrow> ('a, 'c, 'w) Logger" where
  "WithLevel lv l = l\<lparr>level := lv\<rparr>"

definition WithSink :: "('a, 'c, 'w) Sink \<Rightarrow> ('a, 'c, 'w) Logger \<Rightarrow> ('a, 'c, 'w) Logger" where
  "WithSink k l = l\<lparr>sinks := sinks l @ [k]\<rparr>"

definition WithFields :: "(string \<rightharpoonup> 'a any) \<Rightarrow> ('a, 'c, 'w) Logger \<Rightarrow> ('a, 'c, 'w) Logger" where
  "WithFields m l = l\<lparr>fields_map := m\<rparr>"

definition WithCaller :: "bool \<Rightarrow> ('a, 'c, 'w) Logger \<Rightarrow> ('a, 'c, 'w) Logger" where
  "WithCaller b l = l\<lparr>addCaller := b\<rparr>"

definition WithTimeFormat :: "string \<Rightarrow> ('a, 'c, 'w) Logger \<Rightarrow> ('a, 'c, 'w) Logger" where
  "WithTimeFormat f l = l\<lparr>timeFormat := f\<rparr>"

definition WithContextExtractor ::
  "('a, 'c, 'w) ContextExtractor \<Rightarrow> ('a, 'c, 'w) Logger \<Rightarrow> ('a, 'c, 'w) Logger" where
  "WithContextExtractor ex l = l\<lparr>extractor := Some ex\<rparr>"

definition WithHook :: "('a, 'c, 'w) Hook \<Rightarrow> ('a, 'c, 'w) Logger \<Rightarrow> ('a, 'c, 'w) Logger" where
  "WithHook h l = l\<lparr>hooks := hooks l @ [h]\<rparr>"

definition WithErrorHandler :: "'w ErrorHandler \<Rightarrow> ('a, 'c, 'w) Logger \<Rightarrow> ('a, 'c, 'w) Logger" where
  "WithErrorHandler h l = l\<lparr>errorHandler := Some h\<rparr>"

definition New :: "(('a, 'c, 'w) Logger \<Rightarrow> ('a, 'c, 'w) Logger) list \<Rightarrow> ('a, 'c, 'w) Logger" where
  "New opts =
     foldl (\<lambda>l opt. opt l)
       \<lparr>level = InfoLevel, sinks = [], fields_map = Map.empty, addCaller = True,
        timeFormat = RFC3339Nano, errorHandler = None, extractor = None, hooks = []\<rparr>
       opts"

section \<open>The synchronous dispatcher (logger.go, \<^verbatim>\<open>Logger.log\<close>)\<close>

text \<open>
  The calls a log call makes to caller-supplied code are recorded, in order, in a trace
  beside the world: the extractor with its context; hook number \<open>i\<close> (in registration
  order, from 0) with the entry it was given and the error it returned; the \<^verbatim>\<open>Write\<close> of
  sink number \<open>i\<close> with the entry and the error it returned; the error handler with the
  error it was given. \<^verbatim>\<open>os.Exit(1)\<close> sets \<open>exited\<close>.
\<close>

datatype ('a, 'c) event =
  EvExtract 'c
| EvHook nat "('a, 'c) Entry" "error option"
| EvWrite nat "('a, 'c) Entry" "error option"
| EvHandle error

record ('a, 'c, 'w) State =
  world :: 'w
  trace :: "('a, 'c) event list"
  exited :: "int option"

text \<open>
  What a call reads from its environment: \<^verbatim>\<open>time.Now().Format\<close> (the layout to the
  formatted current time) and the result of \<^verbatim>\<open>getCaller(3)\<close> at this call site.
\<close>

record Env =
  now_Format :: "string \<Rightarrow> string"
  getCaller3 :: string

text \<open>
  Lines 232-244: with a non-nil context and an extractor, the extractor runs; a non-empty
  result is put in front of the call-site attributes.
\<close>

definition add_context_attrs ::
  "('a, 'c, 'w) Logger \<Rightarrow> 'c option \<Rightarrow> 'a Attr list \<Rightarrow> ('a, 'c, 'w) State
     \<Rightarrow> 'a Attr list \<times> ('a, 'c, 'w) State" where
  "add_context_attrs l ctx keyvals s =
     (case ctx of
        None \<Rightarrow> (keyvals, s)
      | Some c \<Rightarrow>
          (case extractor l of
             None \<Rightarrow> (keyvals, s)
           | Some ex \<Rightarrow>
               (case ex c (world s) of
                  (ctxAttrs, w') \<Rightarrow>
                    (if length ctxAttrs > 0 then ctxAttrs @ keyvals else keyvals,
                     s\<lparr>world := w', trace := trace s @ [EvExtract c]\<rparr>))))"

text \<open>
  Lines 246-254: a copy of the logger's fields, then \<^verbatim>\<open>fields[val.Key] = val.Value.Any()\<close>
  for each attribute in order.
\<close>

fun set_attrs :: "(string \<rightharpoonup> 'a any) \<Rightarrow> 'a Attr list \<Rightarrow> (string \<rightharpoonup> 'a any)" where
  "set_attrs m [] = m"
| "set_attrs m ((k, v) # kvs) = set_attrs (m(k \<mapsto> v)) kvs"

text \<open>Lines 256-270: the caller, and the entry.\<close>

definition build_entry ::
  "('a, 'c, 'w) Logger \<Rightarrow> Env \<Rightarrow> 'c option \<Rightarrow> Level \<Rightarrow> string \<Rightarrow> 'a Attr list
     \<Rightarrow> ('a, 'c) Entry" where
  "build_entry l env ctx lvl msg keyvals =
     \<lparr>Time = now_Format env (timeFormat l),
      Level = Level_String lvl,
      Message = msg,
      Fields = set_attrs (fields_map l) keyvals,
      Caller = (if addCaller l then getCaller3 env else []),
      Context = ctx\<rparr>"

text \<open>
  Lines 272-279: the hooks in order, each on the entry as the hooks before it left it. The
  result is whether every hook returned nil; at the first error the loop returns.
\<close>

fun run_hooks ::
  "('a, 'c, 'w) Hook list \<Rightarrow> nat \<Rightarrow> 'c option \<Rightarrow> ('a, 'c) Entry \<Rightarrow> ('a, 'c, 'w) State
     \<Rightarrow> bool \<times> ('a, 'c) Entry \<times> ('a, 'c, 'w) State" where
  "run_hooks [] i ctx e s = (True, e, s)"
| "run_hooks (h # hs) i ctx e s =
     (case h ctx e (world s) of
        (err, e', w') \<Rightarrow>
          (let s' = s\<lparr>world := w', trace := trace s @ [EvHook i e err]\<rparr>
           in case err of
                Some x \<Rightarrow> (False, e', s')
              | None \<Rightarrow> run_hooks hs (Suc i) ctx e' s'))"

text \<open>
  Lines 281-287 (and the worker's loop in the async logger): each sink's \<^verbatim>\<open>Write\<close> in
  order; an error goes to the error handler when there is one.
\<close>

fun write_sinks ::
  "'w ErrorHandler option \<Rightarrow> ('a, 'c, 'w) Sink list \<Rightarrow> nat \<Rightarrow> ('a, 'c) Entry
     \<Rightarrow> ('a, 'c, 'w) State \<Rightarrow> ('a, 'c, 'w) State" where
  "write_sinks eh [] i e s = s"
| "write_sinks eh (k # ks) i e s =
     (case Write k e (world s) of
        (err, w') \<Rightarrow>
          (let s1 = s\<lparr>world := w', trace := trace s @ [EvWrite i e err]\<rparr>;
               s2 = (case err of
                       None \<Rightarrow> s1
                     | Some x \<Rightarrow>
                         (case eh of
                            None \<Rightarrow> s1
                          | Some handler \<Rightarrow>
                              s1\<lparr>world := handler x (world s1),
                                 trace := trace s1 @ [EvHandle x]\<rparr>))
           in write_sinks eh ks (Suc i) e s2))"

text \<open>\<^verbatim>\<open>func (l *Logger) log(ctx, level, msg, keyvals...)\<close>.\<close>

definition log ::
  "('a, 'c, 'w) Logger \<Rightarrow> Env \<Rightarrow> 'c option \<Rightarrow> Level \<Rightarrow> string \<Rightarrow> 'a Attr list
     \<Rightarrow> ('a, 'c, 'w) State \<Rightarrow> ('a, 'c, 'w) State" where
  "log l env ctx lvl msg keyvals s =
     (if lvl < level l then s
      else
        (case add_context_attrs l ctx keyvals s of
           (keyvals', s1) \<Rightarrow>
             (case run_hooks (hooks l) 0 ctx (build_entry l env ctx lvl msg keyvals') s1 of
                (ok, entry, s2) \<Rightarrow>
                  if \<not> ok then s2
                  else
                    (let s3 = write_sinks (errorHandler l) (sinks l) 0 entry s2
                     in if lvl = FatalLevel then s3\<lparr>exited := Some 1\<rparr> else s3))))"

text \<open>Reading a trace: the events a call added, and the calls of each kind among them.\<close>

definition new_events ::
  "('a, 'c, 'w) State \<Rightarrow> ('a, 'c, 'w) State \<Rightarrow> ('a, 'c) event list" where
  "new_events s s' = drop (length (trace s)) (trace s')"

fun hook_index :: "('a, 'c) event \<Rightarrow> nat option" where
  "hook_index (EvHook i e r) = Some i"
| "hook_index ev = None"

fun write_index :: "('a, 'c) event \<Rightarrow> nat option" where
  "write_index (EvWrite i e r) = Some i"
| "write_index ev = None"

fun written_entry :: "('a, 'c) event \<Rightarrow> ('a, 'c) Entry option" where
  "written_entry (EvWrite i e r) = Some e"
| "written_entry ev = None"

fun write_error :: "('a, 'c) event \<Rightarrow> error option" where
  "write_error (EvWrite i e r) = r"
| "write_error ev = None"

fun handled_error :: "('a, 'c) event \<Rightarrow> error option" where
  "handled_error (EvHandle x) = Some x"
| "handled_error ev = None"

text \<open>
  Steps 2 to 4 of a call that passed the gate, as one value: context attributes, the entry,
  the hook chain. The result is whether the chain accepted the entry, the entry as the
  hooks left it, and the state.
\<close>

definition prepare ::
  "('a, 'c, 'w) Logger \<Rightarrow> Env \<Rightarrow> 'c option \<Rightarrow> Level \<Rightarrow> string \<Rightarrow> 'a Attr list
     \<Rightarrow> ('a, 'c, 'w) State \<Rightarrow> bool \<times> ('a, 'c) Entry \<times> ('a, 'c, 'w) State" where
  "prepare l env ctx lvl msg keyvals s =
     (case add_context_attrs l ctx keyvals s of
        (keyvals', s1) \<Rightarrow> run_hooks (hooks l) 0 ctx (build_entry l env ctx lvl msg keyvals') s1)"

text \<open>
  The attributes the extractor produces for a call: none with a nil context or without an
  extractor.
\<close>

definition context_attrs ::
  "('a, 'c, 'w) Logger \<Rightarrow> 'c option \<Rightarrow> ('a, 'c, 'w) State \<Rightarrow> 'a Attr list" where
  "context_attrs l ctx s =
     (case ctx of
        None \<Rightarrow> []
      | Some c \<Rightarrow> (case extractor l of None \<Rightarrow> [] | Some ex \<Rightarrow> fst (ex c (world s))))"

text \<open>
  \<^verbatim>\<open>func (l *Logger) With(keyvals ...any) *Logger\<close>: the loop
  \<^verbatim>\<open>for i := 0; i < len(keyvals)-1; i += 2\<close> takes the arguments two at a time, stores the
  pair when the first is a string, and leaves a last argument without a partner alone.
  The struct literal names five fields; the others are zero.
\<close>

fun With_pairs :: "(string \<rightharpoonup> 'a any) \<Rightarrow> 'a any list \<Rightarrow> (string \<rightharpoonup> 'a any)" where
  "With_pairs m (k # v # rest) =
     With_pairs (case k of AnyString key \<Rightarrow> m(key \<mapsto> v) | AnyOther x \<Rightarrow> m) rest"
| "With_pairs m [k] = m"
| "With_pairs m [] = m"

definition With :: "('a, 'c, 'w) Logger \<Rightarrow> 'a any list \<Rightarrow> ('a, 'c, 'w) Logger" where
  "With l keyvals =
     \<lparr>level = level l, sinks = sinks l, fields_map = With_pairs (fields_map l) keyvals,
      addCaller = addCaller l, timeFormat = timeFormat l,
      errorHandler = None, extractor = None, hooks = []\<rparr>"

text \<open>
  The pairs \<^verbatim>\<open>With\<close> takes from its arguments, in order: the arguments two at a time, a
  pair counting when its first component is a string.
\<close>

fun given_pairs :: "'a any list \<Rightarrow> 'a Attr list" where
  "given_pairs (AnyString key # v # rest) = (key, v) # given_pairs rest"
| "given_pairs (AnyOther x # v # rest) = given_pairs rest"
| "given_pairs [k] = []"
| "given_pairs [] = []"

section \<open>The async logger (\<^verbatim>\<open>AsyncLogger\<close>)\<close>

text \<open>
  The buffer is a Go channel of entries: a FIFO queue with a fixed capacity, open or
  closed. The non-blocking send \<^verbatim>\<open>select { case a.buffer <- entry: default: }\<close> puts the
  entry in the queue when there is room and does nothing otherwise; on a closed channel a
  send panics. Workers are goroutines; a worker's loop body is \<open>worker_step\<close>, and the
  interleaving of workers with the producer is not modelled.
\<close>

record ('a, 'c) Chan =
  queue :: "('a, 'c) Entry list"
  capacity :: nat
  chan_closed :: bool

record SamplingConfig =
  Initial :: "64 word"
  Thereafter :: "64 word"
  Interval :: "64 word"

record ('a, 'c, 'w) AsyncLogger =
  Logger :: "('a, 'c, 'w) Logger"
  buffer :: "('a, 'c) Chan"
  closed :: bool
  bufferSize :: int
  workers :: int
  sampling :: "SamplingConfig option"
  shutdownTimeout :: int

definition WithBufferSize :: "int \<Rightarrow> ('a, 'c, 'w) AsyncLogger \<Rightarrow> ('a, 'c, 'w) AsyncLogger" where
  "WithBufferSize n a = a\<lparr>bufferSize := n\<rparr>"

definition WithWorkers :: "int \<Rightarrow> ('a, 'c, 'w) AsyncLogger \<Rightarrow> ('a, 'c, 'w) AsyncLogger" where
  "WithWorkers n a = a\<lparr>workers := n\<rparr>"

text \<open>
  \<^verbatim>\<open>NewAsync\<close>: the defaults, the options, then \<^verbatim>\<open>make(chan *formatter.Entry, a.bufferSize)\<close>,
  which panics on a negative size. Durations are nanoseconds.
\<close>

definition NewAsync ::
  "('a, 'c, 'w) Logger \<Rightarrow> (('a, 'c, 'w) AsyncLogger \<Rightarrow> ('a, 'c, 'w) AsyncLogger) list
     \<Rightarrow> error + ('a, 'c, 'w) AsyncLogger" where
  "NewAsync logger opts =
     (let a = foldl (\<lambda>a opt. opt a)
                \<lparr>Logger = logger,
                 buffer = \<lparr>queue = [], capacity = 0, chan_closed = False\<rparr>,
                 closed = False, bufferSize = 1000, workers = 2, sampling = None,
                 shutdownTimeout = 5000000000\<rparr>
                opts
      in if bufferSize a < 0 then Inl ''makechan: size out of range''
         else Inr (a\<lparr>buffer := \<lparr>queue = [], capacity = nat (bufferSize a),
                                 chan_closed = False\<rparr>\<rparr>))"

definition send_nonblocking :: "('a, 'c) Chan \<Rightarrow> ('a, 'c) Entry \<Rightarrow> error + ('a, 'c) Chan" where
  "send_nonblocking ch e =
     (if chan_closed ch then Inl ''send on closed channel''
      else if length (queue ch) < capacity ch then Inr (ch\<lparr>queue := queue ch @ [e]\<rparr>)
      else Inr ch)"

text \<open>
  \<^verbatim>\<open>logAsync\<close>, lines 115-139: the entry. The fields are the logger's, then the call-site
  attributes; the time layout is \<^verbatim>\<open>time.RFC3339Nano\<close>.
\<close>

definition async_entry ::
  "('a, 'c, 'w) Logger \<Rightarrow> Env \<Rightarrow> 'c option \<Rightarrow> Level \<Rightarrow> string \<Rightarrow> 'a Attr list
     \<Rightarrow> ('a, 'c) Entry" where
  "async_entry l env ctx lvl msg keyvals =
     \<lparr>Time = now_Format env RFC3339Nano,
      Level = Level_String lvl,
      Message = msg,
      Fields = set_attrs (fields_map l) keyvals,
      Caller = (if addCaller l then getCaller3 env else []),
      Context = ctx\<rparr>"

text \<open>\<^verbatim>\<open>func (a *AsyncLogger) logAsync(ctx, level, msg, keyvals...)\<close>.\<close>

definition logAsync ::
  "('a, 'c, 'w) AsyncLogger \<Rightarrow> Env \<Rightarrow> 'c option \<Rightarrow> Level \<Rightarrow> string \<Rightarrow> 'a Attr list
     \<Rightarrow> error + ('a, 'c, 'w) AsyncLogger" where
  "logAsync a env ctx lvl msg keyvals =
     (if lvl < level (Logger a) then Inr a
      else
        (case send_nonblocking (buffer a) (async_entry (Logger a) env ctx lvl msg keyvals) of
           Inl p \<Rightarrow> Inl p
         | Inr ch \<Rightarrow> Inr (a\<lparr>buffer := ch\<rparr>)))"

text \<open>
  One turn of a worker's loop \<^verbatim>\<open>for entry := range a.buffer\<close>: take the oldest entry and
  write it to every sink. \<open>None\<close> when the queue is empty (the worker waits, or returns
  when the channel is closed).
\<close>

definition worker_step ::
  "('a, 'c, 'w) AsyncLogger \<Rightarrow> ('a, 'c, 'w) State
     \<Rightarrow> (('a, 'c, 'w) AsyncLogger \<times> ('a, 'c, 'w) State) option" where
  "worker_step a s =
     (case queue (buffer a) of
        [] \<Rightarrow> None
      | entry # rest \<Rightarrow>
          Some (a\<lparr>buffer := (buffer a)\<lparr>queue := rest\<rparr>\<rparr>,
                write_sinks (errorHandler (Logger a)) (sinks (Logger a)) 0 entry s))"

text \<open>
  A single producer's calls in program order, with no worker turn in between. A call is
  its environment, context, level, message and attributes.
\<close>

type_synonym ('a, 'c) call = "Env \<times> 'c option \<times> Level \<times> string \<times> 'a Attr list"

fun call_level :: "('a, 'c) call \<Rightarrow> Level" where
  "call_level (env, ctx, lvl, msg, keyvals) = lvl"

fun call_entry :: "('a, 'c, 'w) Logger \<Rightarrow> ('a, 'c) call \<Rightarrow> ('a, 'c) Entry" where
  "call_entry l (env, ctx, lvl, msg, keyvals) = async_entry l env ctx lvl msg keyvals"

fun logAsync_calls ::
  "('a, 'c, 'w) AsyncLogger \<Rightarrow> ('a, 'c) call list \<Rightarrow> error + ('a, 'c, 'w) AsyncLogger" where
  "logAsync_calls a [] = Inr a"
| "logAsync_calls a ((env, ctx, lvl, msg, keyvals) # calls) =
     (case logAsync a env ctx lvl msg keyvals of
        Inl p \<Rightarrow> Inl p
      | Inr a' \<Rightarrow> logAsync_calls a' calls)"

section \<open>The sampler (\<^verbatim>\<open>SampledLogger.shouldLog\<close>)\<close>

text \<open>
  \<^verbatim>\<open>Initial\<close>, \<^verbatim>\<open>Thereafter\<close> and the counter are Go \<^verbatim>\<open>int\<close>s, taken to be 64 bits wide:
  \<^verbatim>\<open>count++\<close> and \<^verbatim>\<open>count - Initial\<close> wrap around, comparisons are signed (\<open>sint\<close> reads
  the value). Go's \<^verbatim>\<open>%\<close> truncates towards zero: the remainder has the sign of the dividend;
  \<open>go_rem\<close> is applied to the signed values and its result is in range. An instant is a
  point on an unbounded nanosecond time line; \<^verbatim>\<open>Interval\<close> is a \<^verbatim>\<open>time.Duration\<close>, an
  \<^verbatim>\<open>int64\<close> of nanoseconds; \<^verbatim>\<open>now.After(t)\<close> is \<open>t < now\<close>. The config pointer is taken to
  be non-nil, and the embedded logger, which \<^verbatim>\<open>shouldLog\<close> does not touch, is left out.
\<close>

definition go_rem :: "int \<Rightarrow> int \<Rightarrow> int" where
  "go_rem a b = sgn a * (\<bar>a\<bar> mod \<bar>b\<bar>)"

record sampleCounter =
  count :: "64 word"
  resetTime :: int

record SampledLogger =
  config :: SamplingConfig
  counts :: "string \<rightharpoonup> sampleCounter"

definition shouldLog :: "SampledLogger \<Rightarrow> int \<Rightarrow> string \<Rightarrow> bool \<times> SampledLogger" where
  "shouldLog s now key =
     (let fresh = (True, s\<lparr>counts := (counts s)(key \<mapsto>
                     \<lparr>count = 1, resetTime = now + sint (Interval (config s))\<rparr>)\<rparr>)
      in case counts s key of
           None \<Rightarrow> fresh
         | Some counter \<Rightarrow>
             if resetTime counter < now then fresh
             else
               (let n = count counter + 1;
                    s' = s\<lparr>counts := (counts s)(key \<mapsto> counter\<lparr>count := n\<rparr>)\<rparr>
                in if sint n \<le> sint (Initial (config s)) then (True, s')
                   else if 0 < sint (Thereafter (config s)) \<and>
                           go_rem (sint (n - Initial (config s)))
                             (sint (Thereafter (config s))) = 0
                        then (True, s')
                   else (False, s')))"

text \<open>Successive calls with one key, at the given instants; the decisions in order.\<close>

fun shouldLog_calls :: "SampledLogger \<Rightarrow> int list \<Rightarrow> string \<Rightarrow> bool list" where
  "shouldLog_calls s [] key = []"
| "shouldLog_calls s (now # nows) key =
     (case shouldLog s now key of (b, s') \<Rightarrow> b # shouldLog_calls s' nows key)"

text \<open>
  A key's window is active at an instant when the key has a counter whose reset time the
  instant is not after. A call outside an active window opens a window.
\<close>

definition window_active :: "SampledLogger \<Rightarrow> int \<Rightarrow> string \<Rightarrow> bool" where
  "window_active s now key =
     (case counts s key of None \<Rightarrow> False | Some counter \<Rightarrow> \<not> resetTime counter < now)"

section \<open>The rotating file sink (\<^verbatim>\<open>sink.FileSink\<close>)\<close>

text \<open>
  The file system is a map from paths to contents. An \<^verbatim>\<open>*os.File\<close> is the path it was
  opened at and whether it is still open: the sink closes its handle before it renames or
  removes the file, so a handle never outlives its path. I/O failures other than those the
  file system's state explains are injected through \<open>io_error\<close>.
\<close>

type_synonym path = string

datatype fs_op = OpClose | OpOpen | OpWrite

record File =
  name :: path
  is_open :: bool

record FS =
  files :: "path \<rightharpoonup> string"
  io_error :: "fs_op \<Rightarrow> error option"

definition File_Close :: "File \<Rightarrow> FS \<Rightarrow> error option \<times> File" where
  "File_Close f fs =
     (if \<not> is_open f then (Some ''file already closed'', f)
      else (io_error fs OpClose, f\<lparr>is_open := False\<rparr>))"

definition os_Rename :: "path \<Rightarrow> path \<Rightarrow> FS \<Rightarrow> error option \<times> FS" where
  "os_Rename oldPath newPath fs =
     (case files fs oldPath of
        None \<Rightarrow> (Some ''no such file or directory'', fs)
      | Some c \<Rightarrow> (None, fs\<lparr>files := ((files fs)(oldPath := None))(newPath \<mapsto> c)\<rparr>))"

definition os_Remove :: "path \<Rightarrow> FS \<Rightarrow> error option \<times> FS" where
  "os_Remove p fs =
     (case files fs p of
        None \<Rightarrow> (Some ''no such file or directory'', fs)
      | Some c \<Rightarrow> (None, fs\<lparr>files := (files fs)(p := None)\<rparr>))"

text \<open>\<^verbatim>\<open>os.OpenFile(path, os.O_CREATE|os.O_WRONLY|os.O_APPEND, 0o644)\<close>.\<close>

definition os_OpenFile :: "path \<Rightarrow> FS \<Rightarrow> (error + File) \<times> FS" where
  "os_OpenFile p fs =
     (case io_error fs OpOpen of
        Some e \<Rightarrow> (Inl e, fs)
      | None \<Rightarrow>
          (Inr \<lparr>name = p, is_open = True\<rparr>,
           (case files fs p of None \<Rightarrow> fs\<lparr>files := (files fs)(p \<mapsto> [])\<rparr> | Some c \<Rightarrow> fs)))"

text \<open>A write through a handle opened with \<^verbatim>\<open>O_APPEND\<close> lands at the end of the file.\<close>

definition File_Write :: "File \<Rightarrow> string \<Rightarrow> FS \<Rightarrow> error option \<times> FS" where
  "File_Write f data fs =
     (if \<not> is_open f then (Some ''file already closed'', fs)
      else
        (case io_error fs OpWrite of
           Some e \<Rightarrow> (Some e, fs)
         | None \<Rightarrow>
             (None, fs\<lparr>files := (files fs)(name f \<mapsto>
                      (case files fs (name f) of None \<Rightarrow> [] | Some c \<Rightarrow> c) @ data)\<rparr>)))"

text \<open>\<^verbatim>\<open>strconv.Itoa\<close>, and the path of backup number \<open>i\<close>.\<close>

fun itoa_nat :: "nat \<Rightarrow> string" where
  "itoa_nat n =
     (if n < 10 then [''0123456789'' ! n]
      else itoa_nat (n div 10) @ [''0123456789'' ! (n mod 10)])"

declare itoa_nat.simps [simp del]

definition Itoa :: "int \<Rightarrow> string" where
  "Itoa i = (if i < 0 then ''-'' @ itoa_nat (nat (- i)) else itoa_nat (nat i))"

definition backup_path :: "path \<Rightarrow> int \<Rightarrow> path" where
  "backup_path p i = p @ ''.'' @ Itoa i"

record 'e FileSink =
  file_ptr :: "File option"
  path :: path
  formatter :: "'e \<Rightarrow> error + string"
  size_bytes :: "64 word"
  maxSize :: "64 word"
  maxBackups :: "64 word"

text \<open>
  The loop \<^verbatim>\<open>for i := s.maxBackups - 1; i >= 1; i--\<close> of \<^verbatim>\<open>rotateIfNeededLocked\<close>, from
  \<open>i\<close> down to 1; the result of each rename is discarded.
\<close>

fun shift_backups :: "path \<Rightarrow> nat \<Rightarrow> FS \<Rightarrow> FS" where
  "shift_backups p 0 fs = fs"
| "shift_backups p (Suc i) fs =
     shift_backups p i
       (snd (os_Rename (backup_path p (int (Suc i))) (backup_path p (int (Suc i) + 1)) fs))"

text \<open>
  \<^verbatim>\<open>func (s *FileSink) rotateIfNeededLocked(nextLen int) error\<close>. \<^verbatim>\<open>size\<close> and \<^verbatim>\<open>maxSize\<close> are
  \<^verbatim>\<open>int64\<close>: the sum \<^verbatim>\<open>s.size+int64(nextLen)\<close> wraps around and the comparisons are signed.
  \<^verbatim>\<open>maxBackups\<close> is an \<^verbatim>\<open>int\<close>, taken to be 64 bits wide; the loop runs only when it is
  positive, so \<^verbatim>\<open>s.maxBackups - 1\<close> and \<^verbatim>\<open>i+1\<close> stay in range and are computed on the signed
  value.
\<close>

definition rotateIfNeededLocked ::
  "'e FileSink \<Rightarrow> nat \<Rightarrow> FS \<Rightarrow> error option \<times> 'e FileSink \<times> FS" where
  "rotateIfNeededLocked s nextLen fs =
     (if sint (maxSize s) \<le> 0 then (None, s, fs)
      else if sint (size_bytes s + word_of_nat nextLen) \<le> sint (maxSize s) then (None, s, fs)
      else
        (let (cerr, s1) =
               (case file_ptr s of
                  None \<Rightarrow> (None, s)
                | Some f \<Rightarrow> (case File_Close f fs of (err, f') \<Rightarrow> (err, s\<lparr>file_ptr := Some f'\<rparr>)))
         in case cerr of
              Some err \<Rightarrow> (Some err, s1, fs)
            | None \<Rightarrow>
                (let fs1 =
                       (if 0 < sint (maxBackups s1)
                        then snd (os_Rename (path s1) (backup_path (path s1) 1)
                                    (shift_backups (path s1) (nat (sint (maxBackups s1) - 1)) fs))
                        else snd (os_Remove (path s1) fs))
                 in case os_OpenFile (path s1) fs1 of
                      (Inl err, fs2) \<Rightarrow> (Some err, s1, fs2)
                    | (Inr f, fs2) \<Rightarrow> (None, s1\<lparr>file_ptr := Some f, size_bytes := 0\<rparr>, fs2))))"

text \<open>
  \<^verbatim>\<open>func (s *FileSink) Write(entry *formatter.Entry) error\<close>. A write through a nil
  \<^verbatim>\<open>*os.File\<close> returns \<^verbatim>\<open>os.ErrInvalid\<close>. \<^verbatim>\<open>s.size += int64(len(data))\<close> wraps around.
\<close>

definition FileSink_Write ::
  "'e FileSink \<Rightarrow> 'e \<Rightarrow> FS \<Rightarrow> error option \<times> 'e FileSink \<times> FS" where
  "FileSink_Write s entry fs =
     (case formatter s entry of
        Inl err \<Rightarrow> (Some err, s, fs)
      | Inr data \<Rightarrow>
          (case rotateIfNeededLocked s (length data) fs of
             (Some err, s1, fs1) \<Rightarrow> (Some err, s1, fs1)
           | (None, s1, fs1) \<Rightarrow>
               (case file_ptr s1 of
                  None \<Rightarrow> (Some ''invalid argument'', s1, fs1)
                | Some f \<Rightarrow>
                    (case File_Write f data fs1 of
                       (None, fs2) \<Rightarrow>
                         (None, s1\<lparr>size_bytes := size_bytes s1 + word_of_nat (length data)\<rparr>,
                          fs2)
                     | (Some err, fs2) \<Rightarrow> (Some err, s1, fs2)))))"

section \<open>The fan-out in the destinations' terms\<close>

text \<open>
  What the fan-out is to achieve, stated without the dispatcher's loop. \<open>after_sink\<close> is
  the world after one destination has been written: the world its \<^verbatim>\<open>Write\<close> left, and then,
  when the write returned an error and a handler is set, the world the handler left.
\<close>

definition after_sink ::
  "'w ErrorHandler option \<Rightarrow> ('a, 'c) Entry \<Rightarrow> ('a, 'c, 'w) Sink \<Rightarrow> 'w \<Rightarrow> 'w" where
  "after_sink eh e k w =
     (case Write k e w of
        (None, w') \<Rightarrow> w'
      | (Some x, w') \<Rightarrow> (case eh of None \<Rightarrow> w' | Some handler \<Rightarrow> handler x w'))"

text \<open>
  The world in which destination number \<open>i\<close> (in registration order, from 0) is written:
  the starting world after the destinations before it, each written and its error handled.
\<close>

definition world_before ::
  "'w ErrorHandler option \<Rightarrow> ('a, 'c) Entry \<Rightarrow> ('a, 'c, 'w) Sink list \<Rightarrow> 'w \<Rightarrow> nat \<Rightarrow> 'w" where
  "world_before eh e ks w i = foldl (\<lambda>w k. after_sink eh e k w) w (take i ks)"

text \<open>
  The calls made for destination number \<open>i\<close>, written in the world \<open>w\<close>: its \<^verbatim>\<open>Write\<close> with
  the error it returns there, followed by the handler's call when there is an error and a
  handler.
\<close>

definition sink_events ::
  "'w ErrorHandler option \<Rightarrow> ('a, 'c) Entry \<Rightarrow> nat \<Rightarrow> ('a, 'c, 'w) Sink \<Rightarrow> 'w
     \<Rightarrow> ('a, 'c) event list" where
  "sink_events eh e i k w =
     (case fst (Write k e w) of
        None \<Rightarrow> [EvWrite i e None]
      | Some x \<Rightarrow>
          (case eh of
             None \<Rightarrow> [EvWrite i e (Some x)]
           | Some handler \<Rightarrow> [EvWrite i e (Some x), EvHandle x]))"

text \<open>The calls of a fan-out: those for destination 0, then 1, and so on to the last.\<close>

definition fan_out_events ::
  "'w ErrorHandler option \<Rightarrow> ('a, 'c) Entry \<Rightarrow> ('a, 'c, 'w) Sink list \<Rightarrow> 'w
     \<Rightarrow> ('a, 'c) event list" where
  "fan_out_events eh e ks w =
     concat (map (\<lambda>i. sink_events eh e i (ks ! i) (world_before eh e ks w i)) [0..<length ks])"

text \<open>The sink writes among the events of a trace.\<close>

fun is_write :: "('a, 'c) event \<Rightarrow> bool" where
  "is_write (EvWrite i e r) = True"
| "is_write ev = False"

section \<open>Example components\<close>

text \<open>
  Concrete sinks, hooks, an extractor and an error handler, used to run the definitions on
  inputs. The world is a list of notes: each component appends a note of what it did. A
  context is a trace id.
\<close>

definition ex_env :: Env where
  "ex_env = \<lparr>now_Format = (\<lambda>layout. layout), getCaller3 = ''main.go:10''\<rparr>"

definition ex_state :: "(nat, string, string list) State" where
  "ex_state = \<lparr>world = [], trace = [], exited = None\<rparr>"

definition ok_sink :: "string \<Rightarrow> (nat, string, string list) Sink" where
  "ok_sink n = \<lparr>Write = (\<lambda>e w. (None, w @ [n])), Close = (\<lambda>w. (None, w))\<rparr>"

definition failing_sink :: "string \<Rightarrow> error \<Rightarrow> (nat, string, string list) Sink" where
  "failing_sink n err = \<lparr>Write = (\<lambda>e w. (Some err, w @ [n])), Close = (\<lambda>w. (None, w))\<rparr>"

definition note_handler :: "string list ErrorHandler" where
  "note_handler err w = w @ [''handled: '' @ err]"

definition tag_hook :: "(nat, string, string list) Hook" where
  "tag_hook ctx e w = (None, e\<lparr>Fields := (Fields e)(''hooked'' \<mapsto> AnyString ''yes'')\<rparr>, w)"

definition veto_hook :: "(nat, string, string list) Hook" where
  "veto_hook ctx e w = (Some ''dropped'', e, w @ [''veto''])"

definition pass_hook :: "(nat, string, string list) Hook" where
  "pass_hook ctx e w = (None, e, w @ [''pass''])"

definition trace_extractor :: "(nat, string, string list) ContextExtractor" where
  "trace_extractor c w = ([(''trace_id'', AnyString c)], w)"

definition gate_logger :: "(nat, string, string list) Logger" where
  "gate_logger = New [WithLevel WarnLevel, WithSink (ok_sink ''A''), WithCaller False]"

definition veto_logger :: "(nat, string, string list) Logger" where
  "veto_logger =
     New [WithLevel DebugLevel, WithSink (ok_sink ''A''), WithSink (ok_sink ''B''),
          WithHook pass_hook, WithHook veto_hook, WithHook tag_hook,
          WithErrorHandler note_handler, WithCaller False]"

definition ex_entry :: "string \<Rightarrow> (nat, string) Entry" where
  "ex_entry lv = \<lparr>Time = RFC3339Nano, Level = lv, Message = ''m'', Fields = Map.empty,
       Caller = [], Context = None\<rparr>"

definition fan_logger :: "(nat, string, string list) Logger" where
  "fan_logger =
     New [WithSink (ok_sink ''A''), WithSink (failing_sink ''B'' ''disk full''),
          WithSink (ok_sink ''C''), WithErrorHandler note_handler, WithCaller False]"

definition bc_extractor :: "(nat, string, string list) ContextExtractor" where
  "bc_extractor c w = ([(''b'', AnyOther 2), (''c'', AnyOther 2)], w @ [''extract'']) "

definition prec_logger :: "(nat, string, string list) Logger" where
  "prec_logger =
     New [WithFields [''a'' \<mapsto> AnyOther 1, ''b'' \<mapsto> AnyOther 1, ''c'' \<mapsto> AnyOther 1],
          WithContextExtractor bc_extractor, WithHook pass_hook, WithSink (ok_sink ''A''),
          WithCaller False]"

definition async_test_base :: "(nat, string, string list) Logger" where
  "async_test_base =
     New [WithSink (ok_sink ''mock''), WithContextExtractor trace_extractor, WithHook tag_hook,
          WithTimeFormat ''2006-01-02'']"

definition entry_view ::
  "(nat, string) Entry \<Rightarrow> nat any option \<times> nat any option \<times> string" where
  "entry_view e = (Fields e ''trace_id'', Fields e ''hooked'', Time e)"

definition small_async :: "error + (nat, string, string list) AsyncLogger" where
  "small_async = NewAsync (New [WithCaller False]) [WithBufferSize 2]"

definition three_calls :: "(nat, string) call list" where
  "three_calls =
     [(ex_env, None, InfoLevel, ''first'', []), (ex_env, None, WarnLevel, ''second'', []),
      (ex_env, None, ErrorLevel, ''third'', [])]"

definition parent_logger :: "(nat, string, string list) Logger" where
  "parent_logger =
     New [WithLevel WarnLevel, WithSink (failing_sink ''B'' ''disk full''),
          WithFields [''app'' \<mapsto> AnyString ''web''], WithCaller False,
          WithTimeFormat ''2006-01-02'', WithContextExtractor trace_extractor,
          WithHook veto_hook, WithErrorHandler note_handler]"

definition child_args :: "nat any list" where
  "child_args = [AnyString ''request_id'', AnyString ''abc-123'', AnyOther 7, AnyString ''x'',
                 AnyString ''dangling'']"

definition ex_sampler :: SampledLogger where
  "ex_sampler = \<lparr>config = \<lparr>Initial = 2, Thereafter = 3, Interval = 1000\<rparr>, counts = Map.empty\<rparr>"

definition ex_fs :: FS where
  "ex_fs = \<lparr>files = [''app.log'' \<mapsto> ''aaaaaaaaa'', ''app.log.1'' \<mapsto> ''older''],
            io_error = (\<lambda>op. None)\<rparr>"

definition ex_file_sink :: "64 word \<Rightarrow> 64 word \<Rightarrow> string FileSink" where
  "ex_file_sink max_size max_backups =
     \<lparr>file_ptr = Some \<lparr>name = ''app.log'', is_open = True\<rparr>, path = ''app.log'',
      formatter = Inr, size_bytes = 9, maxSize = max_size, maxBackups = max_backups\<rparr>"

definition sink_view ::
  "error option \<times> string FileSink \<times> FS
     \<Rightarrow> error option \<times> int \<times> string option \<times> string option \<times> string option" where
  "sink_view r =
     (case r of
        (err, s, fs) \<Rightarrow>
          (err, sint (size_bytes s), files fs ''app.log'', files fs ''app.log.1'',
           files fs ''app.log.2''))"

definition zero_sampler :: SampledLogger where
  "zero_sampler = \<lparr>config = \<lparr>Initial = 0, Thereafter = 0, Interval = 1000\<rparr>, counts = Map.empty\<rparr>"

definition wrap_sampler :: SampledLogger where
  "wrap_sampler =
     \<lparr>config = \<lparr>Initial = 0x8000000000000000, Thereafter = 3, Interval = 1000\<rparr>,
      counts = Map.empty\<rparr>"

section \<open>Theorems\<close>

subsection \<open>Level parsing\<close>

text \<open>
  C5 (as stated, refuted): level parsing is not case-insensitive. The mixed-case spelling
  \<^verbatim>\<open>Debug\<close> matches no case of the switch and falls to the default, Info.
\<close>

theorem ParseLevel_mixed_case_counterexample:
  "ParseLevel ''Debug'' = InfoLevel \<and> ParseLevel ''Debug'' \<noteq> DebugLevel"
  by (simp add: ParseLevel_def Level_defs)

text \<open>
  C5 (amended): level parsing accepts each of the names debug, info, warn, error, fatal, and
  the alias warning for warn, in exactly two spellings, all lower case and all upper case;
  every other input, mixed-case spellings included, yields Info. The result is always a
  level: there is no error result.
\<close>

theorem ParseLevel_spellings:
  "ParseLevel ''debug'' = DebugLevel \<and> ParseLevel ''DEBUG'' = DebugLevel \<and>
   ParseLevel ''info'' = InfoLevel \<and> ParseLevel ''INFO'' = InfoLevel \<and>
   ParseLevel ''warn'' = WarnLevel \<and> ParseLevel ''WARN'' = WarnLevel \<and>
   ParseLevel ''warning'' = WarnLevel \<and> ParseLevel ''WARNING'' = WarnLevel \<and>
   ParseLevel ''error'' = ErrorLevel \<and> ParseLevel ''ERROR'' = ErrorLevel \<and>
   ParseLevel ''fatal'' = FatalLevel \<and> ParseLevel ''FATAL'' = FatalLevel \<and>
   (s \<notin> {''debug'', ''DEBUG'', ''info'', ''INFO'', ''warn'', ''WARN'', ''warning'',
          ''WARNING'', ''error'', ''ERROR'', ''fatal'', ''FATAL''}
      \<longrightarrow> ParseLevel s = InfoLevel)"
  by (simp add: ParseLevel_def)

theorem ParseLevel_spellings_witness:
  "ParseLevel ''WARNING'' = WarnLevel \<and> ParseLevel ''Warning'' = InfoLevel \<and>
   ParseLevel ''verbose'' = InfoLevel"
  using ParseLevel_spellings [of "''Warning''"] ParseLevel_spellings [of "''verbose''"]
  by simp

subsection \<open>Traces of the synchronous dispatcher\<close>

lemma map_filter_append: "List.map_filter f (xs @ ys) = List.map_filter f xs @ List.map_filter f ys"
  by (simp add: List.map_filter_def)

lemma upt_head: "i # [Suc i..<Suc i + n] = [i..<i + Suc n]"
  using upt_conv_Cons [of i "i + Suc n"] by simp

lemma log_prepare:
  "log l env ctx lvl msg keyvals s =
     (if lvl < level l then s
      else case prepare l env ctx lvl msg keyvals s of
        (ok, entry, s2) \<Rightarrow>
          if \<not> ok then s2
          else let s3 = write_sinks (errorHandler l) (sinks l) 0 entry s2
               in if lvl = FatalLevel then s3\<lparr>exited := Some 1\<rparr> else s3)"
  by (simp add: log_def prepare_def split: prod.splits)

lemma add_context_attrs_trace:
  "add_context_attrs l ctx keyvals s = (kvs', s1) \<Longrightarrow>
     \<exists>evs. trace s1 = trace s @ evs \<and> exited s1 = exited s \<and>
       List.map_filter hook_index evs = [] \<and> List.map_filter write_index evs = [] \<and>
       List.map_filter written_entry evs = [] \<and> List.map_filter write_error evs = [] \<and>
       List.map_filter handled_error evs = []"
  by (auto simp: add_context_attrs_def split: option.splits prod.splits)

lemma run_hooks_append:
  "run_hooks (pre @ rest) i ctx e s =
     (case run_hooks pre i ctx e s of
        (ok, e1, s1) \<Rightarrow> if ok then run_hooks rest (i + length pre) ctx e1 s1 else (False, e1, s1))"
proof (induction pre arbitrary: i e s)
  case Nil
  then show ?case by simp
next
  case (Cons h pre)
  show ?case
    by (simp add: Cons.IH Let_def split: prod.splits option.splits)
qed

lemma run_hooks_trace:
  "run_hooks hs i ctx e s = (ok, e', s') \<Longrightarrow>
     \<exists>evs. trace s' = trace s @ evs \<and> exited s' = exited s \<and>
       (ok \<longrightarrow> List.map_filter hook_index evs = [i..<i + length hs]) \<and>
       List.map_filter write_index evs = [] \<and>
       List.map_filter written_entry evs = [] \<and> List.map_filter write_error evs = [] \<and>
       List.map_filter handled_error evs = []"
proof (induction hs arbitrary: i e s)
  case Nil
  then show ?case by auto
next
  case (Cons h hs)
  obtain err e1 w1 where h: "h ctx e (world s) = (err, e1, w1)"
    by (cases "h ctx e (world s)") auto
  let ?s1 = "s\<lparr>world := w1, trace := trace s @ [EvHook i e err]\<rparr>"
  show ?case
  proof (cases err)
    case None
    with h Cons.prems have "run_hooks hs (Suc i) ctx e1 ?s1 = (ok, e', s')"
      by (simp add: Let_def)
    from Cons.IH [OF this] obtain evs where
      evs: "trace s' = trace ?s1 @ evs" "exited s' = exited ?s1"
        "ok \<longrightarrow> List.map_filter hook_index evs = [Suc i..<Suc i + length hs]"
        "List.map_filter write_index evs = []"
        "List.map_filter written_entry evs = []" "List.map_filter write_error evs = []"
        "List.map_filter handled_error evs = []"
      by blast
    have "trace s' = trace s @ (EvHook i e err # evs)" using evs(1) by simp
    moreover have "ok \<longrightarrow> List.map_filter hook_index (EvHook i e err # evs) = [i..<i + length (h # hs)]"
      using evs(3) upt_head [of i "length hs"] by (simp del: upt_Suc)
    ultimately show ?thesis using evs(2,4,5,6,7)
      by (intro exI [of _ "EvHook i e err # evs"]) simp
  next
    case (Some x)
    with h Cons.prems have "ok = False" "s' = ?s1" by (simp_all add: Let_def)
    then show ?thesis
      by (intro exI [of _ "[EvHook i e err]"]) simp
  qed
qed

lemma write_sinks_trace:
  "\<exists>evs. trace (write_sinks eh ks i e s) = trace s @ evs \<and>
       exited (write_sinks eh ks i e s) = exited s \<and>
       List.map_filter hook_index evs = [] \<and>
       List.map_filter write_index evs = [i..<i + length ks] \<and>
       List.map_filter written_entry evs = replicate (length ks) e \<and>
       List.map_filter handled_error evs =
         (if eh = None then [] else List.map_filter write_error evs)"
proof (induction ks arbitrary: i s)
  case Nil
  then show ?case by simp
next
  case (Cons k ks)
  obtain err w1 where k: "Write k e (world s) = (err, w1)"
    by (cases "Write k e (world s)") auto
  let ?s1 = "s\<lparr>world := w1, trace := trace s @ [EvWrite i e err]\<rparr>"
  define hd_evs where "hd_evs = EvWrite i e err #
     (case err of None \<Rightarrow> [] | Some x \<Rightarrow> (case eh of None \<Rightarrow> [] | Some handler \<Rightarrow> [EvHandle x]))"
  define s2 where "s2 = (case err of None \<Rightarrow> ?s1 | Some x \<Rightarrow>
         (case eh of None \<Rightarrow> ?s1
          | Some handler \<Rightarrow> ?s1\<lparr>world := handler x (world ?s1), trace := trace ?s1 @ [EvHandle x]\<rparr>))"
  have step: "write_sinks eh (k # ks) i e s = write_sinks eh ks (Suc i) e s2"
    using k by (simp add: s2_def Let_def)
  have s2: "trace s2 = trace s @ hd_evs" "exited s2 = exited s"
    by (auto simp: s2_def hd_evs_def split: option.splits)
  from Cons.IH [of "Suc i" s2] obtain evs where
    evs: "trace (write_sinks eh ks (Suc i) e s2) = trace s2 @ evs"
      "exited (write_sinks eh ks (Suc i) e s2) = exited s2"
      "List.map_filter hook_index evs = []"
      "List.map_filter write_index evs = [Suc i..<Suc i + length ks]"
      "List.map_filter written_entry evs = replicate (length ks) e"
      "List.map_filter handled_error evs =
         (if eh = None then [] else List.map_filter write_error evs)"
    by blast
  have hd: "List.map_filter hook_index hd_evs = []"
    "List.map_filter write_index hd_evs = [i]"
    "List.map_filter written_entry hd_evs = [e]"
    "List.map_filter handled_error hd_evs =
         (if eh = None then [] else List.map_filter write_error hd_evs)"
    by (auto simp: hd_evs_def split: option.splits)
  have "trace (write_sinks eh ks (Suc i) e s2) = trace s @ (hd_evs @ evs)"
    using evs(1) s2(1) by simp
  moreover have "List.map_filter write_index (hd_evs @ evs) = [i..<i + length (k # ks)]"
    using evs(4) hd(2) upt_head [of i "length ks"] by (simp add: map_filter_append del: upt_Suc)
  moreover have "List.map_filter handled_error (hd_evs @ evs) =
         (if eh = None then [] else List.map_filter write_error (hd_evs @ evs))"
    using evs(6) hd(4) by (simp add: map_filter_append)
  ultimately show ?case
    unfolding step
    using evs(2,3,5) s2(2) hd(1,3)
    by (intro exI [of _ "hd_evs @ evs"]) (simp add: map_filter_append)
qed

lemma new_events_append: "trace s' = trace s @ evs \<Longrightarrow> new_events s s' = evs"
  by (simp add: new_events_def)

lemma prepare_trace:
  assumes "prepare l env ctx lvl msg keyvals s = (ok, e, s2)"
  shows "\<exists>evs. trace s2 = trace s @ evs \<and> exited s2 = exited s \<and>
       (ok \<longrightarrow> List.map_filter hook_index evs = [0..<length (hooks l)]) \<and>
       List.map_filter write_index evs = [] \<and>
       List.map_filter written_entry evs = [] \<and> List.map_filter write_error evs = [] \<and>
       List.map_filter handled_error evs = []"
proof -
  obtain kvs' s1 where a: "add_context_attrs l ctx keyvals s = (kvs', s1)"
    by (cases "add_context_attrs l ctx keyvals s") auto
  with assms have r: "run_hooks (hooks l) 0 ctx (build_entry l env ctx lvl msg kvs') s1 = (ok, e, s2)"
    by (simp add: prepare_def)
  from add_context_attrs_trace [OF a] obtain evs0 where
    e0: "trace s1 = trace s @ evs0" "exited s1 = exited s"
      "List.map_filter hook_index evs0 = []" "List.map_filter write_index evs0 = []"
      "List.map_filter written_entry evs0 = []" "List.map_filter write_error evs0 = []"
      "List.map_filter handled_error evs0 = []"
    by blast
  from run_hooks_trace [OF r] obtain evs1 where
    e1: "trace s2 = trace s1 @ evs1" "exited s2 = exited s1"
      "ok \<longrightarrow> List.map_filter hook_index evs1 = [0..<0 + length (hooks l)]"
      "List.map_filter write_index evs1 = []"
      "List.map_filter written_entry evs1 = []" "List.map_filter write_error evs1 = []"
      "List.map_filter handled_error evs1 = []"
    by blast
  show ?thesis
    using e0 e1 by (intro exI [of _ "evs0 @ evs1"]) (simp add: map_filter_append)
qed

lemma log_vetoed:
  assumes "level l \<le> lvl" and "prepare l env ctx lvl msg keyvals s = (False, e, s2)"
  shows "log l env ctx lvl msg keyvals s = s2"
    and "List.map_filter write_index (new_events s s2) = []"
    and "List.map_filter written_entry (new_events s s2) = []"
    and "List.map_filter handled_error (new_events s s2) = []"
    and "exited s2 = exited s"
proof -
  show "log l env ctx lvl msg keyvals s = s2"
    using assms by (simp add: log_prepare)
  from prepare_trace [OF assms(2)] obtain evs where
    "trace s2 = trace s @ evs" "exited s2 = exited s"
    "List.map_filter write_index evs = []" "List.map_filter written_entry evs = []"
    "List.map_filter handled_error evs = []"
    by blast
  then show "List.map_filter write_index (new_events s s2) = []"
    and "List.map_filter written_entry (new_events s s2) = []"
    and "List.map_filter handled_error (new_events s s2) = []"
    and "exited s2 = exited s"
    by (simp_all add: new_events_append)
qed

lemma log_accepted:
  assumes "level l \<le> lvl" and "prepare l env ctx lvl msg keyvals s = (True, e, s2)"
  shows "List.map_filter hook_index (new_events s (log l env ctx lvl msg keyvals s)) =
           [0..<length (hooks l)]"
    and "List.map_filter write_index (new_events s (log l env ctx lvl msg keyvals s)) =
           [0..<length (sinks l)]"
    and "List.map_filter written_entry (new_events s (log l env ctx lvl msg keyvals s)) =
           replicate (length (sinks l)) e"
    and "List.map_filter handled_error (new_events s (log l env ctx lvl msg keyvals s)) =
           (if errorHandler l = None then []
            else List.map_filter write_error (new_events s (log l env ctx lvl msg keyvals s)))"
    and "exited (log l env ctx lvl msg keyvals s) =
           (if lvl = FatalLevel then Some 1 else exited s)"
proof -
  let ?s3 = "write_sinks (errorHandler l) (sinks l) 0 e s2"
  let ?r = "log l env ctx lvl msg keyvals s"
  have r: "?r = (if lvl = FatalLevel then ?s3\<lparr>exited := Some 1\<rparr> else ?s3)"
    using assms by (simp add: log_prepare Let_def)
  from prepare_trace [OF assms(2)] obtain evs1 where
    e1: "trace s2 = trace s @ evs1" "exited s2 = exited s"
      "List.map_filter hook_index evs1 = [0..<length (hooks l)]"
      "List.map_filter write_index evs1 = []"
      "List.map_filter written_entry evs1 = []" "List.map_filter write_error evs1 = []"
      "List.map_filter handled_error evs1 = []"
    by blast
  from write_sinks_trace [of "errorHandler l" "sinks l" 0 e s2] obtain evs2 where
    e2: "trace ?s3 = trace s2 @ evs2" "exited ?s3 = exited s2"
      "List.map_filter hook_index evs2 = []"
      "List.map_filter write_index evs2 = [0..<0 + length (sinks l)]"
      "List.map_filter written_entry evs2 = replicate (length (sinks l)) e"
      "List.map_filter handled_error evs2 =
         (if errorHandler l = None then [] else List.map_filter write_error evs2)"
    by blast
  have "trace ?r = trace s @ (evs1 @ evs2)"
    using r e1(1) e2(1) by simp
  then have n: "new_events s ?r = evs1 @ evs2"
    by (rule new_events_append)
  show "List.map_filter hook_index (new_events s ?r) = [0..<length (hooks l)]"
    using e1(3) e2(3) by (simp add: n map_filter_append)
  show "List.map_filter write_index (new_events s ?r) = [0..<length (sinks l)]"
    using e1(4) e2(4) by (simp add: n map_filter_append)
  show "List.map_filter written_entry (new_events s ?r) = replicate (length (sinks l)) e"
    using e1(5) e2(5) by (simp add: n map_filter_append)
  show "List.map_filter handled_error (new_events s ?r) =
           (if errorHandler l = None then [] else List.map_filter write_error (new_events s ?r))"
    using e1(6,7) e2(6) by (simp add: n map_filter_append)
  show "exited ?r = (if lvl = FatalLevel then Some 1 else exited s)"
    using r e1(2) e2(2) by simp
qed

lemma prepare_no_hooks:
  "hooks l = [] \<Longrightarrow>
     fst (prepare l env ctx lvl msg keyvals s) \<and>
     fst (snd (prepare l env ctx lvl msg keyvals s)) =
       build_entry l env ctx lvl msg (fst (add_context_attrs l ctx keyvals s))"
  by (simp add: prepare_def split: prod.splits)

subsection \<open>Hook veto\<close>

text \<open>
  C3: for every hook chain \<open>pre @ h # post\<close> in which the hooks of \<open>pre\<close> return nil and
  \<open>h\<close> returns an error, and for any number of sinks: the call ends in the state \<open>h\<close> left,
  the hooks called are numbers 0 to \<open>length pre\<close> and none of \<open>post\<close>, no sink is written,
  the error handler is not called, and the process does not exit (even at Fatal). The call
  has no result through which the caller could learn of the error.
\<close>

theorem hook_veto_drops_record:
  assumes gate: "level l \<le> lvl"
    and chain: "hooks l = pre @ h # post"
    and attrs: "add_context_attrs l ctx keyvals s = (kvs', s1)"
    and pre_ok: "run_hooks pre 0 ctx (build_entry l env ctx lvl msg kvs') s1 = (True, e1, s2)"
    and veto: "h ctx e1 (world s2) = (Some err, e2, w2)"
  shows "log l env ctx lvl msg keyvals s =
           s2\<lparr>world := w2, trace := trace s2 @ [EvHook (length pre) e1 (Some err)]\<rparr> \<and>
         List.map_filter hook_index (new_events s (log l env ctx lvl msg keyvals s)) =
           [0..<Suc (length pre)] \<and>
         List.map_filter write_index (new_events s (log l env ctx lvl msg keyvals s)) = [] \<and>
         List.map_filter handled_error (new_events s (log l env ctx lvl msg keyvals s)) = [] \<and>
         exited (log l env ctx lvl msg keyvals s) = exited s"
proof -
  let ?s3 = "s2\<lparr>world := w2, trace := trace s2 @ [EvHook (length pre) e1 (Some err)]\<rparr>"
  have p: "prepare l env ctx lvl msg keyvals s = (False, e2, ?s3)"
    using chain attrs pre_ok veto by (simp add: prepare_def run_hooks_append Let_def)
  have r: "log l env ctx lvl msg keyvals s = ?s3"
    using log_vetoed(1) [OF gate p] .
  from add_context_attrs_trace [OF attrs] obtain evs0 where
    e0: "trace s1 = trace s @ evs0" "List.map_filter hook_index evs0 = []"
    by blast
  from run_hooks_trace [OF pre_ok] obtain evs1 where
    e1: "trace s2 = trace s1 @ evs1" "List.map_filter hook_index evs1 = [0..<0 + length pre]"
    by blast
  have "trace ?s3 = trace s @ (evs0 @ evs1 @ [EvHook (length pre) e1 (Some err)])"
    using e0(1) e1(1) by simp
  then have n: "new_events s ?s3 = evs0 @ evs1 @ [EvHook (length pre) e1 (Some err)]"
    by (rule new_events_append)
  have "List.map_filter hook_index (new_events s ?s3) = [0..<Suc (length pre)]"
    using e0(2) e1(2) by (simp add: n map_filter_append)
  then show ?thesis
    using r log_vetoed(2,4,5) [OF gate p] by simp
qed

theorem hook_veto_drops_record_witness:
  "log veto_logger ex_env None FatalLevel ''m'' [] ex_state =
     \<lparr>world = [''pass'', ''veto''],
      trace = [EvHook 0 (ex_entry ''FATAL'') None, EvHook 1 (ex_entry ''FATAL'') (Some ''dropped'')],
      exited = None\<rparr> \<and>
   List.map_filter hook_index
     (new_events ex_state (log veto_logger ex_env None FatalLevel ''m'' [] ex_state)) = [0, 1] \<and>
   List.map_filter write_index
     (new_events ex_state (log veto_logger ex_env None FatalLevel ''m'' [] ex_state)) = [] \<and>
   List.map_filter handled_error
     (new_events ex_state (log veto_logger ex_env None FatalLevel ''m'' [] ex_state)) = []"
proof -
  have gate: "level veto_logger \<le> FatalLevel"
    by (simp add: veto_logger_def New_def WithLevel_def WithSink_def WithHook_def
        WithErrorHandler_def WithCaller_def Level_defs)
  have chain: "hooks veto_logger = [pass_hook] @ veto_hook # [tag_hook]"
    by (simp add: veto_logger_def New_def WithLevel_def WithSink_def WithHook_def
        WithErrorHandler_def WithCaller_def)
  have attrs: "add_context_attrs veto_logger None [] ex_state = ([], ex_state)"
    by (simp add: add_context_attrs_def)
  have entry: "build_entry veto_logger ex_env None FatalLevel ''m'' [] = ex_entry ''FATAL''"
    by (simp add: veto_logger_def New_def WithLevel_def WithSink_def WithHook_def
        WithErrorHandler_def WithCaller_def Level_defs build_entry_def ex_entry_def
        Level_String_def ex_env_def)
  have pre_ok: "run_hooks [pass_hook] 0 None (build_entry veto_logger ex_env None FatalLevel ''m'' [])
      ex_state = (True, ex_entry ''FATAL'',
        \<lparr>world = [''pass''], trace = [EvHook 0 (ex_entry ''FATAL'') None], exited = None\<rparr>)"
    by (simp add: entry pass_hook_def ex_state_def)
  have veto: "veto_hook None (ex_entry ''FATAL'')
      (world \<lparr>world = [''pass''], trace = [EvHook 0 (ex_entry ''FATAL'') None], exited = None\<rparr>) =
      (Some ''dropped'', ex_entry ''FATAL'', [''pass'', ''veto''])"
    by (simp add: veto_hook_def)
  from hook_veto_drops_record [OF gate chain attrs pre_ok veto]
  show ?thesis by (simp add: new_events_def ex_state_def)
qed

subsection \<open>Field precedence\<close>

lemma set_attrs_lookup:
  "set_attrs m kvs k = (case map_of (rev kvs) k of Some v \<Rightarrow> Some v | None \<Rightarrow> m k)"
proof (induction kvs arbitrary: m)
  case Nil
  then show ?case by simp
next
  case (Cons kv kvs)
  obtain k' v' where kv: "kv = (k', v')" by (cases kv)
  show ?case
    by (simp add: kv Cons.IH map_add_def split: option.splits)
qed

lemma add_context_attrs_fst:
  "fst (add_context_attrs l ctx keyvals s) = context_attrs l ctx s @ keyvals"
  by (simp add: add_context_attrs_def context_attrs_def split: option.splits prod.splits)

lemma run_hooks_Fields:
  assumes "\<forall>h\<in>set hs. \<forall>c e w. Fields (fst (snd (h c e w))) = Fields e"
    and "run_hooks hs i ctx e s = (ok, e', s')"
  shows "Fields e' = Fields e"
  using assms
proof (induction hs arbitrary: i e s)
  case Nil
  then show ?case by simp
next
  case (Cons h hs)
  obtain err e1 w1 where h: "h ctx e (world s) = (err, e1, w1)"
    by (cases "h ctx e (world s)") auto
  have keep: "Fields e1 = Fields e"
    using Cons.prems(1) h by (metis fst_conv list.set_intros(1) snd_conv)
  show ?case
  proof (cases err)
    case None
    with h Cons.prems(2) have "run_hooks hs (Suc i) ctx e1
        (s\<lparr>world := w1, trace := trace s @ [EvHook i e err]\<rparr>) = (ok, e', s')"
      by (simp add: Let_def)
    with Cons.IH [of "Suc i" e1] Cons.prems(1) keep show ?thesis by simp
  next
    case (Some x)
    with h Cons.prems(2) keep show ?thesis by (simp add: Let_def)
  qed
qed

text \<open>
  C6: the entry a synchronous call builds resolves every key by the precedence default
  fields < context-extracted fields < call-site fields: the value is that of the last
  call-site attribute with the key; failing that, of the last attribute with the key that
  the extractor produced; failing that, the logger's default field. Hooks may rewrite the
  entry afterwards; when every hook leaves the field mapping as it is, every entry
  written to a sink resolves every key in this way.
\<close>

theorem field_precedence:
  "Fields (build_entry l env ctx lvl msg (fst (add_context_attrs l ctx keyvals s))) k =
     (case map_of (rev keyvals) k of
        Some v \<Rightarrow> Some v
      | None \<Rightarrow>
          (case map_of (rev (context_attrs l ctx s)) k of
             Some v \<Rightarrow> Some v
           | None \<Rightarrow> fields_map l k)) \<and>
   ((\<forall>h\<in>set (hooks l). \<forall>c e w. Fields (fst (snd (h c e w))) = Fields e) \<longrightarrow>
    (\<forall>E\<in>set (List.map_filter written_entry (new_events s (log l env ctx lvl msg keyvals s))).
       Fields E k =
         (case map_of (rev keyvals) k of
            Some v \<Rightarrow> Some v
          | None \<Rightarrow>
              (case map_of (rev (context_attrs l ctx s)) k of
                 Some v \<Rightarrow> Some v
               | None \<Rightarrow> fields_map l k))))"
proof -
  let ?built = "build_entry l env ctx lvl msg (fst (add_context_attrs l ctx keyvals s))"
  let ?rhs = "case map_of (rev keyvals) k of
        Some v \<Rightarrow> Some v
      | None \<Rightarrow>
          (case map_of (rev (context_attrs l ctx s)) k of
             Some v \<Rightarrow> Some v
           | None \<Rightarrow> fields_map l k)"
  have built: "Fields ?built k = ?rhs"
    by (simp add: build_entry_def add_context_attrs_fst set_attrs_lookup map_add_def
        split: option.splits)
  have written: "\<forall>E\<in>set (List.map_filter written_entry
        (new_events s (log l env ctx lvl msg keyvals s))). Fields E k = ?rhs"
    if keep: "\<forall>h\<in>set (hooks l). \<forall>c e w. Fields (fst (snd (h c e w))) = Fields e"
  proof -
    obtain ok e s2 where p: "prepare l env ctx lvl msg keyvals s = (ok, e, s2)"
      by (cases "prepare l env ctx lvl msg keyvals s") auto
    then have r: "run_hooks (hooks l) 0 ctx ?built (snd (add_context_attrs l ctx keyvals s)) =
        (ok, e, s2)"
      by (simp add: prepare_def split: prod.splits)
    have e: "Fields e = Fields ?built"
      using run_hooks_Fields [OF keep r] .
    show ?thesis
    proof (cases "level l \<le> lvl \<and> ok")
      case True
      then have "List.map_filter written_entry (new_events s (log l env ctx lvl msg keyvals s)) =
          replicate (length (sinks l)) e"
        using log_accepted(3) [of l lvl env ctx msg keyvals s e s2] p by simp
      then show ?thesis using e built by simp
    next
      case False
      have "List.map_filter written_entry (new_events s (log l env ctx lvl msg keyvals s)) = []"
      proof (cases "level l \<le> lvl")
        case True
        with False p log_vetoed(1,3) [of l lvl env ctx msg keyvals s e s2]
        show ?thesis by simp
      next
        case False
        then show ?thesis by (simp add: log_def new_events_def)
      qed
      then show ?thesis by simp
    qed
  qed
  show ?thesis using built written by blast
qed

theorem field_precedence_witness:
  "map (\<lambda>E. (Fields E ''a'', Fields E ''b'', Fields E ''c'', Fields E ''d''))
     (List.map_filter written_entry
       (new_events ex_state
         (log prec_logger ex_env (Some ''t'') InfoLevel ''m'' [(''c'', AnyOther 3)] ex_state))) =
   [(Some (AnyOther 1), Some (AnyOther 2), Some (AnyOther 3), None)]"
proof -
  let ?r = "log prec_logger ex_env (Some ''t'') InfoLevel ''m'' [(''c'', AnyOther 3)] ex_state"
  have l: "prec_logger =
     \<lparr>level = InfoLevel, sinks = [ok_sink ''A''],
      fields_map = [''a'' \<mapsto> AnyOther 1, ''b'' \<mapsto> AnyOther 1, ''c'' \<mapsto> AnyOther 1],
      addCaller = False, timeFormat = RFC3339Nano, errorHandler = None,
      extractor = Some bc_extractor, hooks = [pass_hook]\<rparr>"
    by (simp add: prec_logger_def New_def WithFields_def WithContextExtractor_def WithHook_def
        WithSink_def WithCaller_def)
  have keep: "\<forall>h\<in>set (hooks prec_logger). \<forall>c e w. Fields (fst (snd (h c e w))) = Fields e"
    by (simp add: l pass_hook_def)
  have ca: "context_attrs prec_logger (Some ''t'') ex_state = [(''b'', AnyOther 2), (''c'', AnyOther 2)]"
    by (simp add: l context_attrs_def bc_extractor_def)
  have fm: "fields_map prec_logger =
      [''a'' \<mapsto> AnyOther 1, ''b'' \<mapsto> AnyOther 1, ''c'' \<mapsto> AnyOther 1]"
    by (simp add: l)
  have n: "length (List.map_filter written_entry (new_events ex_state ?r)) = 1"
    by (simp add: l log_def add_context_attrs_def bc_extractor_def pass_hook_def ok_sink_def
        new_events_def ex_state_def Level_defs)
  then obtain E where E: "List.map_filter written_entry (new_events ex_state ?r) = [E]"
    by (cases "List.map_filter written_entry (new_events ex_state ?r)") auto
  have "Fields E k =
         (case map_of (rev [(''c'', AnyOther 3)]) k of
            Some v \<Rightarrow> Some v
          | None \<Rightarrow>
              (case map_of (rev (context_attrs prec_logger (Some ''t'') ex_state)) k of
                 Some v \<Rightarrow> Some v
               | None \<Rightarrow> fields_map prec_logger k))" for k
    using field_precedence [of prec_logger ex_env "Some ''t''" InfoLevel "''m''"
        "[(''c'', AnyOther 3)]" ex_state k] keep E
    by simp
  then have F: "Fields E k =
         (case map_of [(''c'', AnyOther 3)] k of
            Some v \<Rightarrow> Some v
          | None \<Rightarrow>
              (case map_of [(''c'', AnyOther 2), (''b'', AnyOther 2)] k of
                 Some v \<Rightarrow> Some v
               | None \<Rightarrow> [''a'' \<mapsto> AnyOther 1, ''b'' \<mapsto> AnyOther 1, ''c'' \<mapsto> AnyOther 1] k))" for k
    by (simp add: ca fm)
  show ?thesis
    by (simp add: E F)
qed

subsection \<open>The async logger\<close>

text \<open>
  C1 (the code at the input of \<^verbatim>\<open>TestAsyncLoggerAppliesHooksAndContext\<close>): a base logger
  with a sink, a context extractor, a hook and the time layout \<^verbatim>\<open>2006-01-02\<close>, wrapped by
  \<^verbatim>\<open>NewAsync\<close>; one Info call with a context. The entry \<^verbatim>\<open>logAsync\<close> enqueues, and the
  entry a worker then writes, has neither the extractor's \<^verbatim>\<open>trace_id\<close> nor the hook's
  \<^verbatim>\<open>hooked\<close> field, and its time has the layout \<^verbatim>\<open>RFC3339Nano\<close>. The synchronous \<^verbatim>\<open>log\<close>
  of the same call writes an entry with both fields and the configured layout.
\<close>

theorem logAsync_skips_hooks_and_extractor:
  "(case NewAsync async_test_base [] of
      Inl p \<Rightarrow> []
    | Inr a \<Rightarrow>
        (case logAsync a ex_env (Some ''abc-123'') InfoLevel ''hello'' [] of
           Inl p \<Rightarrow> []
         | Inr a' \<Rightarrow> map entry_view (queue (buffer a')))) =
     [(None, None, RFC3339Nano)] \<and>
   (case NewAsync async_test_base [] of
      Inl p \<Rightarrow> []
    | Inr a \<Rightarrow>
        (case logAsync a ex_env (Some ''abc-123'') InfoLevel ''hello'' [] of
           Inl p \<Rightarrow> []
         | Inr a' \<Rightarrow>
             (case worker_step a' ex_state of
                None \<Rightarrow> []
              | Some (a'', s') \<Rightarrow> map entry_view (List.map_filter written_entry (trace s'))))) =
     [(None, None, RFC3339Nano)] \<and>
   map entry_view
     (List.map_filter written_entry
        (trace (log async_test_base ex_env (Some ''abc-123'') InfoLevel ''hello'' [] ex_state))) =
     [(Some (AnyString ''abc-123''), Some (AnyString ''yes''), ''2006-01-02'')]"
  by (simp add: NewAsync_def async_test_base_def New_def WithSink_def WithContextExtractor_def
      WithHook_def WithTimeFormat_def logAsync_def send_nonblocking_def async_entry_def
      entry_view_def ex_env_def Level_defs log_def add_context_attrs_def build_entry_def
      trace_extractor_def tag_hook_def ok_sink_def ex_state_def worker_step_def)

lemma logAsync_calls_queue:
  assumes "\<not> chan_closed (buffer a)"
    and "\<forall>c\<in>set calls. level (Logger a) \<le> call_level c"
  shows "logAsync_calls a calls =
     Inr (a\<lparr>buffer := (buffer a)\<lparr>queue := queue (buffer a) @
            take (capacity (buffer a) - length (queue (buffer a)))
              (map (call_entry (Logger a)) calls)\<rparr>\<rparr>)"
  using assms
proof (induction calls arbitrary: a)
  case Nil
  then show ?case by simp
next
  case (Cons c calls)
  obtain env ctx lvl msg keyvals where c: "c = (env, ctx, lvl, msg, keyvals)"
    by (cases c) auto
  let ?e = "async_entry (Logger a) env ctx lvl msg keyvals"
  have gate: "level (Logger a) \<le> lvl" using Cons.prems(2) c by simp
  show ?case
  proof (cases "length (queue (buffer a)) < capacity (buffer a)")
    case True
    let ?a' = "a\<lparr>buffer := (buffer a)\<lparr>queue := queue (buffer a) @ [?e]\<rparr>\<rparr>"
    have step: "logAsync a env ctx lvl msg keyvals = Inr ?a'"
      using gate Cons.prems(1) True by (simp add: logAsync_def send_nonblocking_def)
    have "logAsync_calls ?a' calls =
        Inr (?a'\<lparr>buffer := (buffer ?a')\<lparr>queue := queue (buffer ?a') @
            take (capacity (buffer ?a') - length (queue (buffer ?a')))
              (map (call_entry (Logger ?a')) calls)\<rparr>\<rparr>)"
      using Cons.prems by (intro Cons.IH) simp_all
    moreover have "capacity (buffer a) - length (queue (buffer a)) =
        Suc (capacity (buffer a) - Suc (length (queue (buffer a))))"
      using True by simp
    ultimately show ?thesis
      using step by (simp add: c)
  next
    case False
    have step: "logAsync a env ctx lvl msg keyvals = Inr a"
      using gate Cons.prems(1) False by (simp add: logAsync_def send_nonblocking_def)
    have "logAsync_calls a calls =
        Inr (a\<lparr>buffer := (buffer a)\<lparr>queue := queue (buffer a) @
            take (capacity (buffer a) - length (queue (buffer a)))
              (map (call_entry (Logger a)) calls)\<rparr>\<rparr>)"
      using Cons.prems by (intro Cons.IH) simp_all
    then show ?thesis
      using step False by (simp add: c)
  qed
qed

text \<open>
  C7: for an async logger whose channel is open and a single producer's calls that all pass
  the level gate, with no worker turn in between: every call returns, and the queue
  afterwards is the queue before followed by the entries of the first calls, as many as
  there was room for, in program order. From an empty queue of capacity \<open>C\<close> these are the
  entries of the first \<open>C\<close> calls; the entries of the later calls are dropped; calls on a
  full queue leave the logger as it was.
\<close>

theorem async_drop_on_full:
  assumes "\<not> chan_closed (buffer a)"
    and "\<forall>c\<in>set calls. level (Logger a) \<le> call_level c"
  shows "logAsync_calls a calls =
     Inr (a\<lparr>buffer := (buffer a)\<lparr>queue := queue (buffer a) @
            take (capacity (buffer a) - length (queue (buffer a)))
              (map (call_entry (Logger a)) calls)\<rparr>\<rparr>) \<and>
   (queue (buffer a) = [] \<longrightarrow>
      logAsync_calls a calls =
        Inr (a\<lparr>buffer := (buffer a)\<lparr>queue :=
               take (capacity (buffer a)) (map (call_entry (Logger a)) calls)\<rparr>\<rparr>)) \<and>
   (capacity (buffer a) \<le> length (queue (buffer a)) \<longrightarrow> logAsync_calls a calls = Inr a)"
  using logAsync_calls_queue [OF assms] by simp

theorem async_drop_on_full_witness:
  "(case small_async of
      Inl p \<Rightarrow> []
    | Inr a \<Rightarrow>
        (case logAsync_calls a three_calls of
           Inl p \<Rightarrow> []
         | Inr a' \<Rightarrow> map Message (queue (buffer a')))) = [''first'', ''second'']"
proof -
  let ?a = "\<lparr>Logger = New [WithCaller False],
             buffer = \<lparr>queue = [], capacity = 2, chan_closed = False\<rparr>,
             closed = False, bufferSize = 2, workers = 2, sampling = None,
             shutdownTimeout = 5000000000\<rparr> :: (nat, string, string list) AsyncLogger"
  have a: "small_async = Inr ?a"
    by (simp add: small_async_def NewAsync_def WithBufferSize_def)
  have op: "\<not> chan_closed (buffer ?a)" by simp
  have gate: "\<forall>c\<in>set three_calls. level (Logger ?a) \<le> call_level c"
    by (simp add: three_calls_def New_def WithCaller_def Level_defs)
  from async_drop_on_full [OF op gate]
  show ?thesis
    by (simp add: a three_calls_def async_entry_def)
qed

subsection \<open>Child loggers\<close>

lemma With_pairs_set_attrs: "With_pairs m kvs = set_attrs m (given_pairs kvs)"
proof (induction m kvs rule: With_pairs.induct)
  case (1 m k v rest)
  then show ?case by (cases k) (simp_all add: fun_upd_def)
qed simp_all

lemma write_sinks_None_trace:
  "\<exists>evs. trace (write_sinks None ks i e s) = trace s @ evs \<and>
     (\<forall>ev\<in>set evs. \<exists>j r. ev = EvWrite j e r)"
proof (induction ks arbitrary: i s)
  case Nil
  then show ?case by simp
next
  case (Cons k ks)
  obtain err w1 where k: "Write k e (world s) = (err, w1)"
    by (cases "Write k e (world s)") auto
  let ?s1 = "s\<lparr>world := w1, trace := trace s @ [EvWrite i e err]\<rparr>"
  have step: "write_sinks None (k # ks) i e s = write_sinks None ks (Suc i) e ?s1"
    using k by (simp add: Let_def split: option.splits)
  from Cons.IH [of "Suc i" ?s1] obtain evs where
    evs: "trace (write_sinks None ks (Suc i) e ?s1) = trace ?s1 @ evs"
      "\<forall>ev\<in>set evs. \<exists>j r. ev = EvWrite j e r"
    by blast
  show ?case
    unfolding step using evs
    by (intro exI [of _ "EvWrite i e err # evs"]) simp
qed

text \<open>
  C10: for every parent logger and every argument list, the logger \<^verbatim>\<open>With\<close> returns has the
  parent's level, sinks, caller setting and time format; its default fields are the
  parent's, overridden by the given pairs (the arguments taken two at a time, a pair
  counting when its first component is a string, a later pair winning); it has no hooks, no
  context extractor and no error handler, whatever the parent had. So every call a log
  call on the child makes is a sink write of the entry built from the child's fields and
  the call-site attributes: no hook, no extractor and no error handler runs.
\<close>

theorem With_child:
  "level (With l kvs) = level l \<and> sinks (With l kvs) = sinks l \<and>
   addCaller (With l kvs) = addCaller l \<and> timeFormat (With l kvs) = timeFormat l \<and>
   hooks (With l kvs) = [] \<and> extractor (With l kvs) = None \<and>
   errorHandler (With l kvs) = None \<and>
   fields_map (With l kvs) k =
     (case map_of (rev (given_pairs kvs)) k of Some v \<Rightarrow> Some v | None \<Rightarrow> fields_map l k) \<and>
   (\<forall>ev\<in>set (new_events s (log (With l kvs) env ctx lvl msg keyvals s)).
      \<exists>i r. ev = EvWrite i (build_entry (With l kvs) env ctx lvl msg keyvals) r)"
proof -
  let ?c = "With l kvs"
  let ?e = "build_entry ?c env ctx lvl msg keyvals"
  have sel: "level ?c = level l" "sinks ?c = sinks l" "addCaller ?c = addCaller l"
    "timeFormat ?c = timeFormat l" "hooks ?c = []" "extractor ?c = None"
    "errorHandler ?c = None"
    by (simp_all add: With_def)
  have flds: "fields_map ?c k =
     (case map_of (rev (given_pairs kvs)) k of Some v \<Rightarrow> Some v | None \<Rightarrow> fields_map l k)"
    by (simp add: With_def With_pairs_set_attrs set_attrs_lookup)
  have attrs: "add_context_attrs ?c ctx keyvals s = (keyvals, s)"
    by (simp add: add_context_attrs_def sel split: option.splits)
  have run: "log ?c env ctx lvl msg keyvals s =
      (if lvl < level l then s
       else if lvl = FatalLevel then (write_sinks None (sinks l) 0 ?e s)\<lparr>exited := Some 1\<rparr>
       else write_sinks None (sinks l) 0 ?e s)"
    by (simp add: log_def attrs sel Let_def)
  from write_sinks_None_trace [of "sinks l" 0 ?e s] obtain evs where
    evs: "trace (write_sinks None (sinks l) 0 ?e s) = trace s @ evs"
      "\<forall>ev\<in>set evs. \<exists>j r. ev = EvWrite j ?e r"
    by blast
  have tr: "trace (log ?c env ctx lvl msg keyvals s) =
      (if lvl < level l then trace s else trace (write_sinks None (sinks l) 0 ?e s))"
    by (simp add: run)
  have "\<forall>ev\<in>set (new_events s (log ?c env ctx lvl msg keyvals s)). \<exists>i r. ev = EvWrite i ?e r"
    using evs by (simp add: tr new_events_def)
  then show ?thesis
    using sel flds by blast
qed

theorem With_child_witness:
  "hooks parent_logger \<noteq> [] \<and> extractor parent_logger \<noteq> None \<and>
   errorHandler parent_logger \<noteq> None \<and>
   level (With parent_logger child_args) = WarnLevel \<and>
   timeFormat (With parent_logger child_args) = ''2006-01-02'' \<and>
   fields_map (With parent_logger child_args) ''app'' = Some (AnyString ''web'') \<and>
   fields_map (With parent_logger child_args) ''request_id'' = Some (AnyString ''abc-123'') \<and>
   fields_map (With parent_logger child_args) ''dangling'' = None \<and>
   log (With parent_logger child_args) ex_env (Some ''t'') ErrorLevel ''m'' [] ex_state =
     \<lparr>world = [''B''],
      trace = [EvWrite 0
                 (build_entry (With parent_logger child_args) ex_env (Some ''t'') ErrorLevel ''m'' [])
                 (Some ''disk full'')],
      exited = None\<rparr>"
proof -
  have p: "parent_logger =
     \<lparr>level = WarnLevel, sinks = [failing_sink ''B'' ''disk full''],
      fields_map = [''app'' \<mapsto> AnyString ''web''], addCaller = False,
      timeFormat = ''2006-01-02'', errorHandler = Some note_handler,
      extractor = Some trace_extractor, hooks = [veto_hook]\<rparr>"
    by (simp add: parent_logger_def New_def WithLevel_def WithSink_def WithFields_def
        WithCaller_def WithTimeFormat_def WithContextExtractor_def WithHook_def
        WithErrorHandler_def)
  have gp: "given_pairs child_args = [(''request_id'', AnyString ''abc-123'')]"
    by (simp add: child_args_def)
  have run: "log (With parent_logger child_args) ex_env (Some ''t'') ErrorLevel ''m'' [] ex_state =
     \<lparr>world = [''B''],
      trace = [EvWrite 0
                 (build_entry (With parent_logger child_args) ex_env (Some ''t'') ErrorLevel ''m'' [])
                 (Some ''disk full'')],
      exited = None\<rparr>"
    by (simp add: log_def With_def p add_context_attrs_def Level_defs failing_sink_def
        ex_state_def)
  show ?thesis
    using With_child [of parent_logger child_args "''app''"]
      With_child [of parent_logger child_args "''request_id''"]
      With_child [of parent_logger child_args "''dangling''"]
    by (simp add: run gp) (simp add: p)
qed

subsection \<open>The dispatcher's loop against the fan-out in the destinations' terms\<close>

lemma map_upt_Suc: "map f [0..<Suc n] = f 0 # map (\<lambda>j. f (Suc j)) [0..<n]"
  by (simp add: upt_conv_Cons map_Suc_upt [symmetric] del: upt_Suc)

lemma write_sinks_step:
  "write_sinks eh (k # ks) i e s =
     write_sinks eh ks (Suc i) e
       (s\<lparr>world := after_sink eh e k (world s),
          trace := trace s @ sink_events eh e i k (world s)\<rparr>)"
  by (cases "Write k e (world s)")
    (simp add: after_sink_def sink_events_def Let_def split: option.splits)

lemma write_sinks_spec:
  "write_sinks eh ks i e s =
     s\<lparr>world := foldl (\<lambda>w k. after_sink eh e k w) (world s) ks,
       trace := trace s @
         concat (map (\<lambda>j. sink_events eh e (i + j) (ks ! j) (world_before eh e ks (world s) j))
                   [0..<length ks])\<rparr>"
proof (induction ks arbitrary: i s)
  case Nil
  then show ?case by simp
next
  case (Cons k ks)
  let ?s1 = "s\<lparr>world := after_sink eh e k (world s),
          trace := trace s @ sink_events eh e i k (world s)\<rparr>"
  have wb0: "world_before eh e (k # ks) (world s) 0 = world s"
    by (simp add: world_before_def)
  have wbS: "world_before eh e (k # ks) (world s) (Suc j) =
      world_before eh e ks (after_sink eh e k (world s)) j" for j
    by (simp add: world_before_def)
  show ?case
    unfolding write_sinks_step Cons.IH [of "Suc i" ?s1] length_Cons map_upt_Suc
    by (simp add: wb0 wbS)
qed

lemma log_accepted_state:
  assumes "level l \<le> lvl" and "prepare l env ctx lvl msg keyvals s = (True, e, s2)"
  shows "log l env ctx lvl msg keyvals s =
     s2\<lparr>world := foldl (\<lambda>w k. after_sink (errorHandler l) e k w) (world s2) (sinks l),
        trace := trace s2 @ fan_out_events (errorHandler l) e (sinks l) (world s2),
        exited := (if lvl = FatalLevel then Some 1 else exited s2)\<rparr>"
  using assms
  by (simp add: log_prepare Let_def write_sinks_spec [of _ _ 0] fan_out_events_def)

lemma filter_writes_sink_events:
  "filter is_write (sink_events eh e i k w) =
     [EvWrite i e (fst (Write k e w))]"
  by (simp add: sink_events_def split: option.splits)

lemma filter_writes_fan_out:
  "filter is_write (fan_out_events eh e ks w) =
     map (\<lambda>i. EvWrite i e (fst (Write (ks ! i) e (world_before eh e ks w i)))) [0..<length ks]"
  by (simp add: fan_out_events_def filter_concat comp_def filter_writes_sink_events)

subsection \<open>Fan-out\<close>

text \<open>
  C4: for a call that passed the gate and whose entry \<open>e\<close> the hook chain accepted, leaving
  the state \<open>s2\<close>. The calls the fan-out makes are exactly, for destination 0, then 1, and
  so on in registration order: the \<^verbatim>\<open>Write\<close> of that destination (\<open>sinks l ! i\<close>) with \<open>e\<close>, in
  the world the destinations before it left, and, when the write returns an error and a
  handler is set, the handler with that error before the next destination is written. A
  failed write stops nothing: write number \<open>i\<close> is always that of destination \<open>i\<close>, every
  destination is written once, and the final world is the starting world put through
  every destination in order. The errors given to the handler are the errors the writes
  returned, and none is given when no handler is set; the call itself has no error
  result, and the process exits only at Fatal.
\<close>

theorem fan_out_in_registration_order:
  assumes gate: "level l \<le> lvl"
    and accepted: "prepare l env ctx lvl msg keyvals s = (True, e, s2)"
  shows "new_events s2 (log l env ctx lvl msg keyvals s) =
           fan_out_events (errorHandler l) e (sinks l) (world s2) \<and>
         filter is_write (new_events s2 (log l env ctx lvl msg keyvals s)) =
           map (\<lambda>i. EvWrite i e
                     (fst (Write (sinks l ! i) e
                        (world_before (errorHandler l) e (sinks l) (world s2) i))))
             [0..<length (sinks l)] \<and>
         world (log l env ctx lvl msg keyvals s) =
           foldl (\<lambda>w k. after_sink (errorHandler l) e k w) (world s2) (sinks l) \<and>
         List.map_filter write_index (new_events s (log l env ctx lvl msg keyvals s)) =
           [0..<length (sinks l)] \<and>
         List.map_filter written_entry (new_events s (log l env ctx lvl msg keyvals s)) =
           replicate (length (sinks l)) e \<and>
         List.map_filter handled_error (new_events s (log l env ctx lvl msg keyvals s)) =
           (if errorHandler l = None then []
            else List.map_filter write_error (new_events s (log l env ctx lvl msg keyvals s))) \<and>
         exited (log l env ctx lvl msg keyvals s) =
           (if lvl = FatalLevel then Some 1 else exited s)"
proof -
  have st: "log l env ctx lvl msg keyvals s =
     s2\<lparr>world := foldl (\<lambda>w k. after_sink (errorHandler l) e k w) (world s2) (sinks l),
        trace := trace s2 @ fan_out_events (errorHandler l) e (sinks l) (world s2),
        exited := (if lvl = FatalLevel then Some 1 else exited s2)\<rparr>"
    using log_accepted_state [OF gate accepted] .
  have ev: "new_events s2 (log l env ctx lvl msg keyvals s) =
      fan_out_events (errorHandler l) e (sinks l) (world s2)"
    by (simp add: st new_events_def)
  have w: "world (log l env ctx lvl msg keyvals s) =
      foldl (\<lambda>w k. after_sink (errorHandler l) e k w) (world s2) (sinks l)"
    by (simp add: st)
  show ?thesis
    using log_accepted [OF gate accepted] w
    by (simp add: ev filter_writes_fan_out)
qed

theorem fan_out_in_registration_order_witness:
  "log fan_logger ex_env None InfoLevel ''m'' [] ex_state =
     \<lparr>world = [''A'', ''B'', ''handled: disk full'', ''C''],
      trace = [EvWrite 0 (ex_entry ''INFO'') None, EvWrite 1 (ex_entry ''INFO'') (Some ''disk full''),
               EvHandle ''disk full'', EvWrite 2 (ex_entry ''INFO'') None],
      exited = None\<rparr> \<and>
   List.map_filter write_index
     (new_events ex_state (log fan_logger ex_env None InfoLevel ''m'' [] ex_state)) = [0, 1, 2] \<and>
   List.map_filter written_entry
     (new_events ex_state (log fan_logger ex_env None InfoLevel ''m'' [] ex_state)) =
     [ex_entry ''INFO'', ex_entry ''INFO'', ex_entry ''INFO''] \<and>
   List.map_filter handled_error
     (new_events ex_state (log fan_logger ex_env None InfoLevel ''m'' [] ex_state)) = [''disk full'']"
proof -
  let ?ks = "[ok_sink ''A'', failing_sink ''B'' ''disk full'', ok_sink ''C'']"
  have l: "fan_logger =
     \<lparr>level = InfoLevel, sinks = ?ks,
      fields_map = Map.empty, addCaller = False, timeFormat = RFC3339Nano,
      errorHandler = Some note_handler, extractor = None, hooks = []\<rparr>"
    by (simp add: fan_logger_def New_def WithSink_def WithErrorHandler_def WithCaller_def)
  have gate: "level fan_logger \<le> InfoLevel"
    by (simp add: l)
  have accepted: "prepare fan_logger ex_env None InfoLevel ''m'' [] ex_state =
      (True, ex_entry ''INFO'', ex_state)"
    by (simp add: l prepare_def add_context_attrs_def build_entry_def ex_entry_def
        Level_String_def Level_defs ex_env_def)
  have after: "after_sink (Some note_handler) e (ok_sink n) w = w @ [n]"
    "after_sink (Some note_handler) e (failing_sink n x) w = w @ [n, ''handled: '' @ x]"
    for e :: "(nat, string) Entry" and n x w
    by (simp_all add: after_sink_def ok_sink_def failing_sink_def note_handler_def)
  have ev: "fan_out_events (Some note_handler) (ex_entry ''INFO'') ?ks [] =
      [EvWrite 0 (ex_entry ''INFO'') None, EvWrite 1 (ex_entry ''INFO'') (Some ''disk full''),
       EvHandle ''disk full'', EvWrite 2 (ex_entry ''INFO'') None]"
    by (simp add: fan_out_events_def sink_events_def world_before_def ok_sink_def
        failing_sink_def upt_rec)
  have sel: "sinks fan_logger = ?ks" "errorHandler fan_logger = Some note_handler"
    by (simp_all add: l)
  have es: "world ex_state = []" "trace ex_state = []" "exited ex_state = None"
    by (simp_all add: ex_state_def)
  have ne: "InfoLevel \<noteq> FatalLevel"
    by (simp add: Level_defs)
  have tr: "trace (log fan_logger ex_env None InfoLevel ''m'' [] ex_state) =
      [EvWrite 0 (ex_entry ''INFO'') None, EvWrite 1 (ex_entry ''INFO'') (Some ''disk full''),
       EvHandle ''disk full'', EvWrite 2 (ex_entry ''INFO'') None]"
    using fan_out_in_registration_order [OF gate accepted]
    by (simp add: sel es ev new_events_def)
  have wd: "world (log fan_logger ex_env None InfoLevel ''m'' [] ex_state) =
      [''A'', ''B'', ''handled: disk full'', ''C'']"
    using fan_out_in_registration_order [OF gate accepted]
    by (simp add: sel es after)
  have ex: "exited (log fan_logger ex_env None InfoLevel ''m'' [] ex_state) = None"
    using fan_out_in_registration_order [OF gate accepted]
    by (simp add: ne es)
  have run: "log fan_logger ex_env None InfoLevel ''m'' [] ex_state =
     \<lparr>world = [''A'', ''B'', ''handled: disk full'', ''C''],
      trace = [EvWrite 0 (ex_entry ''INFO'') None, EvWrite 1 (ex_entry ''INFO'') (Some ''disk full''),
               EvHandle ''disk full'', EvWrite 2 (ex_entry ''INFO'') None],
      exited = None\<rparr>"
    using tr wd ex by (cases "log fan_logger ex_env None InfoLevel ''m'' [] ex_state") simp
  show ?thesis
    unfolding run
    by (simp add: new_events_def ex_state_def)
qed

subsection \<open>The level gate\<close>

text \<open>
  C2: for every configured minimum level and every record level. A call below the minimum
  returns at once: the state is unchanged, so no entry was built, no extractor or hook ran
  and no sink was written. A call at or above the minimum (the boundary included) builds
  the entry and hands it to the hook chain; when the chain accepts, the call ends in the
  state in which every sink's \<^verbatim>\<open>Write\<close> has been applied to the accepted entry, in
  registration order, and otherwise in the state the vetoing hook left. With no hook
  configured the entry delivered is the built entry, the final world is the world put
  through every sink's \<^verbatim>\<open>Write\<close> of it, and, given a sink, an entry is written if and only
  if the record level is at least the minimum.
\<close>

theorem log_level_gate:
  "(lvl < level l \<longrightarrow> log l env ctx lvl msg keyvals s = s) \<and>
   (level l \<le> lvl \<longrightarrow>
      (case prepare l env ctx lvl msg keyvals s of
         (ok, e, s2) \<Rightarrow>
           if ok
           then log l env ctx lvl msg keyvals s =
                  s2\<lparr>world := foldl (\<lambda>w k. after_sink (errorHandler l) e k w) (world s2) (sinks l),
                     trace := trace s2 @ fan_out_events (errorHandler l) e (sinks l) (world s2),
                     exited := (if lvl = FatalLevel then Some 1 else exited s2)\<rparr>
           else log l env ctx lvl msg keyvals s = s2)) \<and>
   (level l \<le> lvl \<and> hooks l = [] \<longrightarrow>
      world (log l env ctx lvl msg keyvals s) =
        foldl (\<lambda>w k. after_sink (errorHandler l)
                  (build_entry l env ctx lvl msg (fst (add_context_attrs l ctx keyvals s))) k w)
          (world (snd (add_context_attrs l ctx keyvals s))) (sinks l)) \<and>
   List.map_filter written_entry (new_events s (log l env ctx lvl msg keyvals s)) =
     (if level l \<le> lvl \<and> fst (prepare l env ctx lvl msg keyvals s)
      then replicate (length (sinks l)) (fst (snd (prepare l env ctx lvl msg keyvals s)))
      else []) \<and>
   (hooks l = [] \<longrightarrow>
      fst (prepare l env ctx lvl msg keyvals s) \<and>
      fst (snd (prepare l env ctx lvl msg keyvals s)) =
        build_entry l env ctx lvl msg (fst (add_context_attrs l ctx keyvals s))) \<and>
   (hooks l = [] \<and> sinks l \<noteq> [] \<longrightarrow>
      (List.map_filter written_entry (new_events s (log l env ctx lvl msg keyvals s)) \<noteq> []
         \<longleftrightarrow> level l \<le> lvl))"
proof -
  let ?w = "List.map_filter written_entry (new_events s (log l env ctx lvl msg keyvals s))"
  have below: "lvl < level l \<longrightarrow> log l env ctx lvl msg keyvals s = s"
    by (simp add: log_def)
  obtain ok e s2 where p: "prepare l env ctx lvl msg keyvals s = (ok, e, s2)"
    by (cases "prepare l env ctx lvl msg keyvals s") auto
  have state: "level l \<le> lvl \<longrightarrow>
      (case prepare l env ctx lvl msg keyvals s of
         (ok, e, s2) \<Rightarrow>
           if ok
           then log l env ctx lvl msg keyvals s =
                  s2\<lparr>world := foldl (\<lambda>w k. after_sink (errorHandler l) e k w) (world s2) (sinks l),
                     trace := trace s2 @ fan_out_events (errorHandler l) e (sinks l) (world s2),
                     exited := (if lvl = FatalLevel then Some 1 else exited s2)\<rparr>
           else log l env ctx lvl msg keyvals s = s2)"
  proof (cases ok)
    case True
    with p log_accepted_state [of l lvl env ctx msg keyvals s e s2] show ?thesis by simp
  next
    case False
    with p log_vetoed(1) [of l lvl env ctx msg keyvals s e s2] show ?thesis by simp
  qed
  have plain_world: "level l \<le> lvl \<and> hooks l = [] \<longrightarrow>
      world (log l env ctx lvl msg keyvals s) =
        foldl (\<lambda>w k. after_sink (errorHandler l)
                  (build_entry l env ctx lvl msg (fst (add_context_attrs l ctx keyvals s))) k w)
          (world (snd (add_context_attrs l ctx keyvals s))) (sinks l)"
  proof (intro impI, elim conjE)
    assume g: "level l \<le> lvl" and h: "hooks l = []"
    have "prepare l env ctx lvl msg keyvals s =
        (True, build_entry l env ctx lvl msg (fst (add_context_attrs l ctx keyvals s)),
         snd (add_context_attrs l ctx keyvals s))"
      by (simp add: prepare_def h split: prod.splits)
    from log_accepted_state [OF g this] show "world (log l env ctx lvl msg keyvals s) =
        foldl (\<lambda>w k. after_sink (errorHandler l)
                  (build_entry l env ctx lvl msg (fst (add_context_attrs l ctx keyvals s))) k w)
          (world (snd (add_context_attrs l ctx keyvals s))) (sinks l)"
      by simp
  qed
  have writes: "?w =
     (if level l \<le> lvl \<and> fst (prepare l env ctx lvl msg keyvals s)
      then replicate (length (sinks l)) (fst (snd (prepare l env ctx lvl msg keyvals s)))
      else [])"
  proof (cases "level l \<le> lvl")
    case False
    then show ?thesis by (simp add: log_def new_events_def)
  next
    case True
    show ?thesis
    proof (cases ok)
      case True
      with p log_accepted(3) [OF \<open>level l \<le> lvl\<close>, of env ctx msg keyvals s e s2]
      show ?thesis using \<open>level l \<le> lvl\<close> by simp
    next
      case False
      with p log_vetoed(1,3) [OF \<open>level l \<le> lvl\<close>, of env ctx msg keyvals s e s2]
      show ?thesis by simp
    qed
  qed
  have plain: "hooks l = [] \<longrightarrow>
      fst (prepare l env ctx lvl msg keyvals s) \<and>
      fst (snd (prepare l env ctx lvl msg keyvals s)) =
        build_entry l env ctx lvl msg (fst (add_context_attrs l ctx keyvals s))"
    using prepare_no_hooks by blast
  have iff: "hooks l = [] \<and> sinks l \<noteq> [] \<longrightarrow> (?w \<noteq> [] \<longleftrightarrow> level l \<le> lvl)"
    using writes plain by auto
  show ?thesis
    using below state plain_world writes plain iff by blast
qed

theorem log_level_gate_witness:
  "log gate_logger ex_env None InfoLevel ''m'' [] ex_state = ex_state \<and>
   log gate_logger ex_env None WarnLevel ''m'' [] ex_state =
     \<lparr>world = [''A''], trace = [EvWrite 0 (ex_entry ''WARN'') None], exited = None\<rparr> \<and>
   log gate_logger ex_env None ErrorLevel ''m'' [] ex_state =
     \<lparr>world = [''A''], trace = [EvWrite 0 (ex_entry ''ERROR'') None], exited = None\<rparr> \<and>
   List.map_filter written_entry
     (new_events ex_state (log gate_logger ex_env None WarnLevel ''m'' [] ex_state)) =
     [\<lparr>Time = RFC3339Nano, Level = ''WARN'', Message = ''m'', Fields = Map.empty,
       Caller = [], Context = None\<rparr>] \<and>
   List.map_filter written_entry
     (new_events ex_state (log gate_logger ex_env None ErrorLevel ''m'' [] ex_state)) =
     [\<lparr>Time = RFC3339Nano, Level = ''ERROR'', Message = ''m'', Fields = Map.empty,
       Caller = [], Context = None\<rparr>]"
proof -
  have l: "gate_logger =
     \<lparr>level = WarnLevel, sinks = [ok_sink ''A''], fields_map = Map.empty, addCaller = False,
      timeFormat = RFC3339Nano, errorHandler = None, extractor = None, hooks = []\<rparr>"
    by (simp add: gate_logger_def New_def WithLevel_def WithSink_def WithCaller_def)
  have p: "prepare gate_logger ex_env None lvl ''m'' [] ex_state =
      (True, ex_entry (Level_String lvl), ex_state)" for lvl
    by (simp add: l prepare_def add_context_attrs_def build_entry_def ex_entry_def ex_env_def)
  have fo: "fan_out_events None e [ok_sink ''A''] [] = [EvWrite 0 e None]"
    "foldl (\<lambda>w k. after_sink None e k w) [] [ok_sink ''A''] = [''A'']"
    "after_sink None e (ok_sink ''A'') [] = [''A'']"
    for e :: "(nat, string) Entry"
    by (simp_all add: fan_out_events_def sink_events_def world_before_def after_sink_def
        ok_sink_def)
  have lv: "level gate_logger = WarnLevel" "sinks gate_logger = [ok_sink ''A'']"
    "errorHandler gate_logger = None" "hooks gate_logger = []"
    by (simp_all add: l)
  have cmp: "InfoLevel < WarnLevel" "WarnLevel \<noteq> FatalLevel" "WarnLevel \<le> ErrorLevel"
    "ErrorLevel \<noteq> FatalLevel"
    by (simp_all add: Level_defs)
  have str: "Level_String WarnLevel = ''WARN''" "Level_String ErrorLevel = ''ERROR''"
    by (simp_all add: Level_String_def Level_defs)
  have below: "log gate_logger ex_env None InfoLevel ''m'' [] ex_state = ex_state"
    using log_level_gate [of InfoLevel gate_logger ex_env None "''m''" "[]" ex_state]
    by (simp add: lv cmp)
  have "log gate_logger ex_env None WarnLevel ''m'' [] ex_state =
     ex_state\<lparr>world := foldl (\<lambda>w k. after_sink None (ex_entry ''WARN'') k w) (world ex_state)
                           [ok_sink ''A''],
              trace := trace ex_state @
                fan_out_events None (ex_entry ''WARN'') [ok_sink ''A''] (world ex_state),
              exited := exited ex_state\<rparr>"
    using log_level_gate [of WarnLevel gate_logger ex_env None "''m''" "[]" ex_state]
    by (simp add: lv p cmp str)
  then have at: "log gate_logger ex_env None WarnLevel ''m'' [] ex_state =
     \<lparr>world = [''A''], trace = [EvWrite 0 (ex_entry ''WARN'') None], exited = None\<rparr>"
    by (simp add: ex_state_def fo)
  have "log gate_logger ex_env None ErrorLevel ''m'' [] ex_state =
     ex_state\<lparr>world := foldl (\<lambda>w k. after_sink None (ex_entry ''ERROR'') k w) (world ex_state)
                           [ok_sink ''A''],
              trace := trace ex_state @
                fan_out_events None (ex_entry ''ERROR'') [ok_sink ''A''] (world ex_state),
              exited := exited ex_state\<rparr>"
    using log_level_gate [of ErrorLevel gate_logger ex_env None "''m''" "[]" ex_state]
    by (simp add: lv p cmp str)
  then have above: "log gate_logger ex_env None ErrorLevel ''m'' [] ex_state =
     \<lparr>world = [''A''], trace = [EvWrite 0 (ex_entry ''ERROR'') None], exited = None\<rparr>"
    by (simp add: ex_state_def fo)
  show ?thesis
    unfolding below at above
    by (simp add: new_events_def ex_state_def ex_entry_def)
qed

subsection \<open>The sampler\<close>

lemma sint64_add:
  "- (2 ^ 63) \<le> sint a + sint b \<Longrightarrow> sint a + sint b < 2 ^ 63 \<Longrightarrow>
     sint (a + b :: 64 word) = sint a + sint b"
  by (simp add: sint_word_add signed_take_bit_int_eq_self)

lemma sint64_diff:
  "- (2 ^ 63) \<le> sint a - sint b \<Longrightarrow> sint a - sint b < 2 ^ 63 \<Longrightarrow>
     sint (a - b :: 64 word) = sint a - sint b"
  by (simp add: sint_word_diff signed_take_bit_int_eq_self)

lemma sint64_of_nat: "int n < 2 ^ 63 \<Longrightarrow> sint (word_of_nat n :: 64 word) = int n"
  by (simp add: signed_of_nat signed_take_bit_int_eq_self)

lemma sint64_range: "- (2 ^ 63) \<le> sint (a :: 64 word)" "sint (a :: 64 word) < 2 ^ 63"
  using sint_ge [of a] sint_lt [of a] by simp_all

lemma shouldLog_fresh:
  "\<not> window_active s now key \<Longrightarrow>
     shouldLog s now key =
       (True, s\<lparr>counts := (counts s)(key \<mapsto>
                \<lparr>count = 1, resetTime = now + sint (Interval (config s))\<rparr>)\<rparr>)"
proof (cases "counts s key")
  case None
  then show ?thesis by (simp add: shouldLog_def Let_def)
next
  case (Some counter)
  moreover assume "\<not> window_active s now key"
  ultimately show ?thesis by (simp add: shouldLog_def window_active_def Let_def)
qed

lemma go_rem_pos: "0 < a \<Longrightarrow> 0 < b \<Longrightarrow> go_rem a b = a mod b"
  by (simp add: go_rem_def)

lemma shouldLog_active:
  assumes "window_active s now key" and "counts s key = Some c"
  shows "shouldLog s now key =
       (sint (count c + 1) \<le> sint (Initial (config s)) \<or>
          (0 < sint (Thereafter (config s)) \<and>
           go_rem (sint (count c + 1 - Initial (config s))) (sint (Thereafter (config s))) = 0),
        s\<lparr>counts := (counts s)(key \<mapsto> c\<lparr>count := count c + 1\<rparr>)\<rparr>)"
  using assms by (simp add: shouldLog_def window_active_def Let_def)

lemma shouldLog_active_in_range:
  assumes "window_active s now key" and "counts s key = Some c"
    and "sint (count c) + 1 < 2 ^ 63"
    and "sint (count c) + 1 - sint (Initial (config s)) < 2 ^ 63"
  shows "fst (shouldLog s now key) \<longleftrightarrow>
       sint (count c) + 1 \<le> sint (Initial (config s)) \<or>
         (0 < sint (Thereafter (config s)) \<and>
          (sint (count c) + 1 - sint (Initial (config s))) mod sint (Thereafter (config s)) = 0)"
proof -
  have n: "sint (count c + 1) = sint (count c) + 1"
    using sint64_add [of "count c" 1] sint64_range(1) [of "count c"] assms(3) by simp
  show ?thesis
  proof (cases "sint (count c) + 1 \<le> sint (Initial (config s))")
    case True
    then show ?thesis by (simp add: shouldLog_active [OF assms(1,2)] n)
  next
    case False
    then have d: "sint (count c + 1 - Initial (config s)) =
        sint (count c) + 1 - sint (Initial (config s))"
      using sint64_diff [of "count c + 1" "Initial (config s)"] assms(4) n by simp
    show ?thesis
    proof (cases "0 < sint (Thereafter (config s))")
      case True
      with False d have "go_rem (sint (count c + 1 - Initial (config s)))
          (sint (Thereafter (config s))) =
          (sint (count c) + 1 - sint (Initial (config s))) mod sint (Thereafter (config s))"
        by (simp add: go_rem_pos)
      with True False show ?thesis by (simp add: shouldLog_active [OF assms(1,2)] n)
    next
      case F: False
      with False show ?thesis by (simp add: shouldLog_active [OF assms(1,2)] n)
    qed
  qed
qed

lemma nine_calls:
  assumes cfg: "Initial (config s) = 2" "Thereafter (config s) = 3"
    and fresh: "\<not> window_active s t key"
    and len: "length ts = 8"
    and within: "\<forall>t'\<in>set ts. t' \<le> t + sint (Interval (config s))"
  shows "shouldLog_calls s (t # ts) key =
     [True, True, False, False, True, False, False, True, False]"
proof -
  from len obtain t2 t3 t4 t5 t6 t7 t8 t9 where ts: "ts = [t2, t3, t4, t5, t6, t7, t8, t9]"
    by (auto simp: length_Suc_conv eval_nat_numeral)
  let ?r = "t + sint (Interval (config s))"
  have w: "t2 \<le> ?r" "t3 \<le> ?r" "t4 \<le> ?r" "t5 \<le> ?r" "t6 \<le> ?r" "t7 \<le> ?r" "t8 \<le> ?r" "t9 \<le> ?r"
    using within by (simp_all add: ts)
  define st where "st n = s\<lparr>counts := (counts s)(key \<mapsto> \<lparr>count = n, resetTime = ?r\<rparr>)\<rparr>" for n
  have first: "shouldLog s t key = (True, st 1)"
    using shouldLog_fresh [OF fresh] by (simp add: st_def)
  have next_call: "shouldLog (st n) t' key =
      (sint (n + 1) \<le> 2 \<or> go_rem (sint (n + 1 - 2)) 3 = 0, st (n + 1))"
    if "t' \<le> ?r" for n t'
  proof -
    have a: "window_active (st n) t' key"
      using that by (simp add: window_active_def st_def)
    have c: "counts (st n) key = Some \<lparr>count = n, resetTime = ?r\<rparr>"
      by (simp add: st_def)
    show ?thesis
      using shouldLog_active [OF a c] cfg by (simp add: st_def)
  qed
  have steps: "shouldLog (st 1) t2 key = (True, st 2)" "shouldLog (st 2) t3 key = (False, st 3)"
    "shouldLog (st 3) t4 key = (False, st 4)" "shouldLog (st 4) t5 key = (True, st 5)"
    "shouldLog (st 5) t6 key = (False, st 6)" "shouldLog (st 6) t7 key = (False, st 7)"
    "shouldLog (st 7) t8 key = (True, st 8)" "shouldLog (st 8) t9 key = (False, st 9)"
    using w by (simp_all add: next_call go_rem_def)
  show ?thesis
    by (simp add: ts first steps)
qed

text \<open>
  C9 (as stated, refuted): with \<^verbatim>\<open>Initial = 0\<close> and \<^verbatim>\<open>Thereafter = 0\<close> the call that opens a
  window is allowed, although its count, 1, exceeds \<^verbatim>\<open>Initial\<close> and \<^verbatim>\<open>Thereafter <= 0\<close>: the
  opening call is allowed whatever the configuration.
\<close>

theorem sampler_opening_call_counterexample:
  "fst (shouldLog zero_sampler 0 ''msg'') \<and>
   map_option count (counts (snd (shouldLog zero_sampler 0 ''msg'')) ''msg'') = Some 1 \<and>
   sint (Initial (config zero_sampler)) < sint (1 :: 64 word) \<and>
   sint (Thereafter (config zero_sampler)) \<le> 0"
  by (simp add: zero_sampler_def shouldLog_def Let_def)

text \<open>
  C9 (amended): with \<^verbatim>\<open>Initial = 2\<close> and \<^verbatim>\<open>Thereafter = 3\<close>, nine calls with one key, the first
  opening a window and the other eight no later than the window's end, are decided allow,
  allow, reject, reject, allow, reject, reject, allow, reject. In general the call that
  opens a window (the key's first, or the first after its window has elapsed) sets the
  count to 1, starts a window and is allowed whatever \<^verbatim>\<open>Initial\<close> and \<^verbatim>\<open>Thereafter\<close> are.
  Every later call within the window increments the count and is allowed exactly when the
  new count is at most \<^verbatim>\<open>Initial\<close>, or \<^verbatim>\<open>Thereafter\<close> is positive and
  \<^verbatim>\<open>(count - Initial) % Thereafter\<close> is 0 in Go's 64-bit arithmetic; as long as neither the
  increment nor the difference overflows, that is the count less \<^verbatim>\<open>Initial\<close> being a
  multiple of \<^verbatim>\<open>Thereafter\<close>. With \<^verbatim>\<open>Thereafter <= 0\<close> no later call within the window is
  allowed once the count exceeds \<^verbatim>\<open>Initial\<close>.
\<close>

theorem sampler_decisions:
  "(Initial (config s) = 2 \<and> Thereafter (config s) = 3 \<and> \<not> window_active s t key \<and>
    length ts = 8 \<and> (\<forall>t'\<in>set ts. t' \<le> t + sint (Interval (config s))) \<longrightarrow>
      shouldLog_calls s (t # ts) key =
        [True, True, False, False, True, False, False, True, False]) \<and>
   (\<not> window_active s now key \<longrightarrow>
      shouldLog s now key =
        (True, s\<lparr>counts := (counts s)(key \<mapsto>
                 \<lparr>count = 1, resetTime = now + sint (Interval (config s))\<rparr>)\<rparr>)) \<and>
   (window_active s now key \<and> counts s key = Some c \<longrightarrow>
      shouldLog s now key =
        (sint (count c + 1) \<le> sint (Initial (config s)) \<or>
           (0 < sint (Thereafter (config s)) \<and>
            go_rem (sint (count c + 1 - Initial (config s)))
              (sint (Thereafter (config s))) = 0),
         s\<lparr>counts := (counts s)(key \<mapsto> c\<lparr>count := count c + 1\<rparr>)\<rparr>)) \<and>
   (window_active s now key \<and> counts s key = Some c \<and> sint (count c) + 1 < 2 ^ 63 \<and>
    sint (count c) + 1 - sint (Initial (config s)) < 2 ^ 63 \<longrightarrow>
      (fst (shouldLog s now key) \<longleftrightarrow>
         sint (count c) + 1 \<le> sint (Initial (config s)) \<or>
           (0 < sint (Thereafter (config s)) \<and>
            (sint (count c) + 1 - sint (Initial (config s))) mod
              sint (Thereafter (config s)) = 0))) \<and>
   (window_active s now key \<and> counts s key = Some c \<and> sint (Thereafter (config s)) \<le> 0 \<and>
    sint (Initial (config s)) < sint (count c + 1) \<longrightarrow> \<not> fst (shouldLog s now key))"
proof -
  have h1: "Initial (config s) = 2 \<and> Thereafter (config s) = 3 \<and> \<not> window_active s t key \<and>
    length ts = 8 \<and> (\<forall>t'\<in>set ts. t' \<le> t + sint (Interval (config s))) \<longrightarrow>
      shouldLog_calls s (t # ts) key =
        [True, True, False, False, True, False, False, True, False]"
    using nine_calls [of s t key ts] by blast
  have h2: "\<not> window_active s now key \<longrightarrow>
      shouldLog s now key =
        (True, s\<lparr>counts := (counts s)(key \<mapsto>
                 \<lparr>count = 1, resetTime = now + sint (Interval (config s))\<rparr>)\<rparr>)"
    using shouldLog_fresh [of s now key] by blast
  have h3: "window_active s now key \<and> counts s key = Some c \<longrightarrow>
      shouldLog s now key =
        (sint (count c + 1) \<le> sint (Initial (config s)) \<or>
           (0 < sint (Thereafter (config s)) \<and>
            go_rem (sint (count c + 1 - Initial (config s)))
              (sint (Thereafter (config s))) = 0),
         s\<lparr>counts := (counts s)(key \<mapsto> c\<lparr>count := count c + 1\<rparr>)\<rparr>)"
    using shouldLog_active [of s now key c] by blast
  have h4: "window_active s now key \<and> counts s key = Some c \<and> sint (count c) + 1 < 2 ^ 63 \<and>
    sint (count c) + 1 - sint (Initial (config s)) < 2 ^ 63 \<longrightarrow>
      (fst (shouldLog s now key) \<longleftrightarrow>
         sint (count c) + 1 \<le> sint (Initial (config s)) \<or>
           (0 < sint (Thereafter (config s)) \<and>
            (sint (count c) + 1 - sint (Initial (config s))) mod
              sint (Thereafter (config s)) = 0))"
    by (intro impI, elim conjE, rule shouldLog_active_in_range)
  have h5: "window_active s now key \<and> counts s key = Some c \<and> sint (Thereafter (config s)) \<le> 0 \<and>
    sint (Initial (config s)) < sint (count c + 1) \<longrightarrow> \<not> fst (shouldLog s now key)"
    using shouldLog_active [of s now key c] by auto
  show ?thesis
    by (rule conjI [OF h1 conjI [OF h2 conjI [OF h3 conjI [OF h4 h5]]]])
qed

theorem sampler_decisions_witness:
  "shouldLog_calls ex_sampler [0, 10, 20, 30, 40, 50, 60, 70, 1000] ''msg'' =
     [True, True, False, False, True, False, False, True, False] \<and>
   shouldLog_calls ex_sampler [0, 10, 20, 1001, 1002] ''msg'' =
     [True, True, False, True, True] \<and>
   shouldLog_calls (ex_sampler\<lparr>config := \<lparr>Initial = 1, Thereafter = 0, Interval = 1000\<rparr>\<rparr>)
     [0, 10, 20] ''msg'' = [True, False, False] \<and>
   shouldLog_calls wrap_sampler [0, 10] ''msg'' = [True, True]"
proof -
  have a: "Initial (config ex_sampler) = 2 \<and> Thereafter (config ex_sampler) = 3 \<and>
      \<not> window_active ex_sampler 0 ''msg'' \<and> length [10, 20, 30, 40, 50, 60, 70, 1000 :: int] = 8 \<and>
      (\<forall>t'\<in>set [10, 20, 30, 40, 50, 60, 70, 1000].
         t' \<le> 0 + sint (Interval (config ex_sampler)))"
    by (simp add: ex_sampler_def window_active_def)
  have one: "shouldLog_calls ex_sampler [0, 10, 20, 30, 40, 50, 60, 70, 1000] ''msg'' =
     [True, True, False, False, True, False, False, True, False]"
    using sampler_decisions [of ex_sampler 0 "''msg''" "[10, 20, 30, 40, 50, 60, 70, 1000]"] a
    by blast
  have two: "shouldLog_calls ex_sampler [0, 10, 20, 1001, 1002] ''msg'' =
     [True, True, False, True, True]"
    by (simp add: ex_sampler_def shouldLog_def go_rem_def Let_def)
  have three: "shouldLog_calls (ex_sampler\<lparr>config := \<lparr>Initial = 1, Thereafter = 0, Interval = 1000\<rparr>\<rparr>)
     [0, 10, 20] ''msg'' = [True, False, False]"
    by (simp add: ex_sampler_def shouldLog_def go_rem_def Let_def)
  have four: "shouldLog_calls wrap_sampler [0, 10] ''msg'' = [True, True]"
    by (simp add: wrap_sampler_def shouldLog_def go_rem_def Let_def)
  show ?thesis using one two three four by simp
qed

subsection \<open>The rotating file sink\<close>

lemma backup_path_neq [simp]: "backup_path p i \<noteq> p" "p \<noteq> backup_path p i"
  by (simp_all add: backup_path_def)

lemma os_Rename_other:
  "p \<noteq> a \<Longrightarrow> p \<noteq> b \<Longrightarrow> files (snd (os_Rename a b fs)) p = files fs p"
  by (simp add: os_Rename_def split: option.splits)

lemma os_Rename_io_error: "io_error (snd (os_Rename a b fs)) = io_error fs"
  by (simp add: os_Rename_def split: option.splits)

lemma shift_backups_active:
  "files (shift_backups p n fs) p = files fs p \<and> io_error (shift_backups p n fs) = io_error fs"
  by (induction n arbitrary: fs) (simp_all add: os_Rename_other os_Rename_io_error)

lemma rotate_no_backups:
  assumes "file_ptr s = Some \<lparr>name = path s, is_open = True\<rparr>"
    and "io_error fs = (\<lambda>op. None)"
    and "files fs (path s) = Some old"
    and "0 < sint (maxSize s)" and "sint (maxSize s) < sint (size_bytes s + word_of_nat n)" and "sint (maxBackups s) \<le> 0"
  shows "rotateIfNeededLocked s n fs =
     (None, s\<lparr>size_bytes := 0\<rparr>, fs\<lparr>files := (files fs)(path s \<mapsto> [])\<rparr>)"
proof -
  have s: "s\<lparr>file_ptr := Some \<lparr>name = path s, is_open = True\<rparr>, size_bytes := 0\<rparr> =
      s\<lparr>size_bytes := 0\<rparr>"
    using assms(1) by (cases s) simp
  show ?thesis
    using assms s
    by (simp add: rotateIfNeededLocked_def File_Close_def os_Remove_def os_OpenFile_def)
qed

lemma rotate_with_backups:
  assumes "file_ptr s = Some \<lparr>name = path s, is_open = True\<rparr>"
    and "io_error fs = (\<lambda>op. None)"
    and "files fs (path s) = Some old"
    and "0 < sint (maxSize s)" and "sint (maxSize s) < sint (size_bytes s + word_of_nat n)" and "0 < sint (maxBackups s)"
  shows "rotateIfNeededLocked s n fs =
     (None, s\<lparr>size_bytes := 0\<rparr>,
      (shift_backups (path s) (nat (sint (maxBackups s) - 1)) fs)
        \<lparr>files := (files (shift_backups (path s) (nat (sint (maxBackups s) - 1)) fs))
                    (backup_path (path s) 1 \<mapsto> old, path s \<mapsto> [])\<rparr>)"
proof -
  let ?sh = "shift_backups (path s) (nat (sint (maxBackups s) - 1)) fs"
  have s: "s\<lparr>file_ptr := Some \<lparr>name = path s, is_open = True\<rparr>, size_bytes := 0\<rparr> =
      s\<lparr>size_bytes := 0\<rparr>"
    using assms(1) by (cases s) simp
  have sh: "files ?sh (path s) = Some old" "io_error ?sh = (\<lambda>op. None)"
    using shift_backups_active [of "path s" "nat (sint (maxBackups s) - 1)" fs] assms(2,3) by simp_all
  show ?thesis
    using assms s sh
    by (simp add: rotateIfNeededLocked_def File_Close_def os_Rename_def os_OpenFile_def)
qed

lemma rotation_cases:
  assumes fmt: "formatter s entry = Inr data"
    and handle: "file_ptr s = Some \<lparr>name = path s, is_open = True\<rparr>"
    and healthy: "io_error fs = (\<lambda>op. None)"
    and active: "files fs (path s) = Some old"
  shows "(\<not> (0 < sint (maxSize s) \<and>
       sint (maxSize s) < sint (size_bytes s + word_of_nat (length data))) \<longrightarrow>
      rotateIfNeededLocked s (length data) fs = (None, s, fs) \<and>
      FileSink_Write s entry fs =
        (None, s\<lparr>size_bytes := size_bytes s + word_of_nat (length data)\<rparr>,
         fs\<lparr>files := (files fs)(path s \<mapsto> old @ data)\<rparr>)) \<and>
   (0 < sint (maxSize s) \<and>
       sint (maxSize s) < sint (size_bytes s + word_of_nat (length data)) \<longrightarrow>
      (case rotateIfNeededLocked s (length data) fs of
         (err, s1, fs1) \<Rightarrow>
           err = None \<and> s1 = s\<lparr>size_bytes := 0\<rparr> \<and>
           files fs1 (path s) = Some [] \<and>
           (0 < sint (maxBackups s) \<longrightarrow> files fs1 (backup_path (path s) 1) = Some old) \<and>
           (sint (maxBackups s) \<le> 0 \<longrightarrow> files fs1 = (files fs)(path s \<mapsto> [])) \<and>
           FileSink_Write s entry fs =
             (None, s\<lparr>size_bytes := word_of_nat (length data)\<rparr>,
              fs1\<lparr>files := (files fs1)(path s \<mapsto> data)\<rparr>)))"
proof (intro conjI impI)
  assume no: "\<not> (0 < sint (maxSize s) \<and>
       sint (maxSize s) < sint (size_bytes s + word_of_nat (length data)))"
  then show r: "rotateIfNeededLocked s (length data) fs = (None, s, fs)"
    by (auto simp: rotateIfNeededLocked_def)
  show "FileSink_Write s entry fs =
        (None, s\<lparr>size_bytes := size_bytes s + word_of_nat (length data)\<rparr>,
         fs\<lparr>files := (files fs)(path s \<mapsto> old @ data)\<rparr>)"
    using fmt handle healthy active
    by (simp add: FileSink_Write_def r File_Write_def)
next
  assume yes: "0 < sint (maxSize s) \<and>
       sint (maxSize s) < sint (size_bytes s + word_of_nat (length data))"
  show "case rotateIfNeededLocked s (length data) fs of
         (err, s1, fs1) \<Rightarrow>
           err = None \<and> s1 = s\<lparr>size_bytes := 0\<rparr> \<and>
           files fs1 (path s) = Some [] \<and>
           (0 < sint (maxBackups s) \<longrightarrow> files fs1 (backup_path (path s) 1) = Some old) \<and>
           (sint (maxBackups s) \<le> 0 \<longrightarrow> files fs1 = (files fs)(path s \<mapsto> [])) \<and>
           FileSink_Write s entry fs =
             (None, s\<lparr>size_bytes := word_of_nat (length data)\<rparr>,
              fs1\<lparr>files := (files fs1)(path s \<mapsto> data)\<rparr>)"
  proof (cases "0 < sint (maxBackups s)")
    case True
    let ?sh = "shift_backups (path s) (nat (sint (maxBackups s) - 1)) fs"
    have io: "io_error ?sh = (\<lambda>op. None)"
      using shift_backups_active [of "path s" "nat (sint (maxBackups s) - 1)" fs] healthy by simp
    have r: "rotateIfNeededLocked s (length data) fs =
       (None, s\<lparr>size_bytes := 0\<rparr>,
        ?sh\<lparr>files := (files ?sh)(backup_path (path s) 1 \<mapsto> old, path s \<mapsto> [])\<rparr>)"
      using rotate_with_backups [OF handle healthy active _ _ True] yes by simp
    show ?thesis
      using True fmt handle io
      by (simp add: r FileSink_Write_def File_Write_def)
  next
    case False
    then have nb: "sint (maxBackups s) \<le> 0" by simp
    have r: "rotateIfNeededLocked s (length data) fs =
       (None, s\<lparr>size_bytes := 0\<rparr>, fs\<lparr>files := (files fs)(path s \<mapsto> [])\<rparr>)"
      using rotate_no_backups [OF handle healthy active _ _ nb] yes by simp
    show ?thesis
      using nb fmt handle healthy
      by (simp add: r FileSink_Write_def File_Write_def)
  qed
qed

text \<open>
  C8: a file sink whose handle is open on its existing active file, on a file system
  without I/O failures, writing the formatted bytes \<open>data\<close>. The sum \<^verbatim>\<open>size + len(data)\<close> is
  the code's \<^verbatim>\<open>int64\<close> sum; it is the mathematical sum whenever the counter is not negative
  and the sum is below \<open>2 ^ 63\<close>. Unless \<^verbatim>\<open>maxSize > 0\<close> and \<^verbatim>\<open>size + len(data) > maxSize\<close>,
  nothing is rotated (in particular never when \<^verbatim>\<open>maxSize <= 0\<close>): the sink and the file
  system are as before, the bytes are appended to the active file and the counter grows by
  their number. Otherwise the rotation comes first: the counter is 0 and the active path
  holds a fresh empty file; with \<^verbatim>\<open>maxBackups > 0\<close> backup 1 holds the old contents, and with
  \<^verbatim>\<open>maxBackups <= 0\<close> the old file is removed and no other path changes; then the bytes make
  up the whole of the fresh active file, and the counter is their number.
\<close>

theorem rotation_policy:
  assumes fmt: "formatter s entry = Inr data"
    and handle: "file_ptr s = Some \<lparr>name = path s, is_open = True\<rparr>"
    and healthy: "io_error fs = (\<lambda>op. None)"
    and active: "files fs (path s) = Some old"
  shows "(\<not> (0 < sint (maxSize s) \<and>
       sint (maxSize s) < sint (size_bytes s + word_of_nat (length data))) \<longrightarrow>
      rotateIfNeededLocked s (length data) fs = (None, s, fs) \<and>
      FileSink_Write s entry fs =
        (None, s\<lparr>size_bytes := size_bytes s + word_of_nat (length data)\<rparr>,
         fs\<lparr>files := (files fs)(path s \<mapsto> old @ data)\<rparr>)) \<and>
   (0 < sint (maxSize s) \<and>
       sint (maxSize s) < sint (size_bytes s + word_of_nat (length data)) \<longrightarrow>
      (case rotateIfNeededLocked s (length data) fs of
         (err, s1, fs1) \<Rightarrow>
           err = None \<and> s1 = s\<lparr>size_bytes := 0\<rparr> \<and>
           files fs1 (path s) = Some [] \<and>
           (0 < sint (maxBackups s) \<longrightarrow> files fs1 (backup_path (path s) 1) = Some old) \<and>
           (sint (maxBackups s) \<le> 0 \<longrightarrow> files fs1 = (files fs)(path s \<mapsto> [])) \<and>
           FileSink_Write s entry fs =
             (None, s\<lparr>size_bytes := word_of_nat (length data)\<rparr>,
              fs1\<lparr>files := (files fs1)(path s \<mapsto> data)\<rparr>))) \<and>
   (0 \<le> sint (size_bytes s) \<and> sint (size_bytes s) + int (length data) < 2 ^ 63 \<longrightarrow>
      sint (size_bytes s + word_of_nat (length data)) =
        sint (size_bytes s) + int (length data))"
proof -
  have sum: "0 \<le> sint (size_bytes s) \<and> sint (size_bytes s) + int (length data) < 2 ^ 63 \<longrightarrow>
      sint (size_bytes s + word_of_nat (length data)) =
        sint (size_bytes s) + int (length data)"
  proof (intro impI, elim conjE)
    assume nonneg: "0 \<le> sint (size_bytes s)"
      and fits: "sint (size_bytes s) + int (length data) < 2 ^ 63"
    then have len: "sint (word_of_nat (length data) :: 64 word) = int (length data)"
      by (intro sint64_of_nat) simp
    show "sint (size_bytes s + word_of_nat (length data)) =
        sint (size_bytes s) + int (length data)"
      using sint64_add [of "size_bytes s" "word_of_nat (length data)"] nonneg fits
      by (simp add: len)
  qed
  show ?thesis
    using rotation_cases [OF fmt handle healthy active] sum by simp
qed

theorem rotation_policy_witness:
  "sink_view (FileSink_Write (ex_file_sink 10 2) ''bb'' ex_fs) =
     (None, 2, Some ''bb'', Some ''aaaaaaaaa'', Some ''older'') \<and>
   sink_view (FileSink_Write (ex_file_sink 10 0) ''bb'' ex_fs) =
     (None, 2, Some ''bb'', Some ''older'', None) \<and>
   sink_view (FileSink_Write (ex_file_sink 11 2) ''bb'' ex_fs) =
     (None, 11, Some ''aaaaaaaaabb'', Some ''older'', None) \<and>
   sink_view (FileSink_Write (ex_file_sink 0 2) ''bb'' ex_fs) =
     (None, 11, Some ''aaaaaaaaabb'', Some ''older'', None) \<and>
   sink_view (FileSink_Write
       ((ex_file_sink 0x7FFFFFFFFFFFFFFF 2)\<lparr>size_bytes := 0x7FFFFFFFFFFFFFFE\<rparr>) ''bb'' ex_fs) =
     (None, - 9223372036854775808, Some ''aaaaaaaaabb'', Some ''older'', None)"
proof -
  have fs: "io_error ex_fs = (\<lambda>op. None)" "files ex_fs ''app.log'' = Some ''aaaaaaaaa''"
    by (simp_all add: ex_fs_def)
  have bp: "backup_path ''app.log'' 1 = ''app.log.1''" "backup_path ''app.log'' 2 = ''app.log.2''"
    by (simp_all add: backup_path_def Itoa_def itoa_nat.simps)
  have a: "sink_view (FileSink_Write (ex_file_sink 10 2) ''bb'' ex_fs) =
     (None, 2, Some ''bb'', Some ''aaaaaaaaa'', Some ''older'')"
    using rotation_policy [of "ex_file_sink 10 2" "''bb''" "''bb''" ex_fs "''aaaaaaaaa''"] fs bp
    by (simp add: ex_file_sink_def sink_view_def FileSink_Write_def rotateIfNeededLocked_def
        File_Close_def os_Rename_def os_OpenFile_def File_Write_def ex_fs_def)
  have b: "sink_view (FileSink_Write (ex_file_sink 10 0) ''bb'' ex_fs) =
     (None, 2, Some ''bb'', Some ''older'', None)"
    using rotation_policy [of "ex_file_sink 10 0" "''bb''" "''bb''" ex_fs "''aaaaaaaaa''"] fs
    by (simp add: ex_file_sink_def sink_view_def FileSink_Write_def rotateIfNeededLocked_def
        File_Close_def os_Remove_def os_OpenFile_def File_Write_def ex_fs_def)
  have c: "sink_view (FileSink_Write (ex_file_sink 11 2) ''bb'' ex_fs) =
     (None, 11, Some ''aaaaaaaaabb'', Some ''older'', None)"
    using rotation_policy [of "ex_file_sink 11 2" "''bb''" "''bb''" ex_fs "''aaaaaaaaa''"] fs
    by (simp add: ex_file_sink_def sink_view_def ex_fs_def)
  have d: "sink_view (FileSink_Write (ex_file_sink 0 2) ''bb'' ex_fs) =
     (None, 11, Some ''aaaaaaaaabb'', Some ''older'', None)"
    using rotation_policy [of "ex_file_sink 0 2" "''bb''" "''bb''" ex_fs "''aaaaaaaaa''"] fs
    by (simp add: ex_file_sink_def sink_view_def ex_fs_def)
  have e: "sink_view (FileSink_Write
       ((ex_file_sink 0x7FFFFFFFFFFFFFFF 2)\<lparr>size_bytes := 0x7FFFFFFFFFFFFFFE\<rparr>) ''bb'' ex_fs) =
     (None, - 9223372036854775808, Some ''aaaaaaaaabb'', Some ''older'', None)"
    using rotation_policy [of "(ex_file_sink 0x7FFFFFFFFFFFFFFF 2)\<lparr>size_bytes := 0x7FFFFFFFFFFFFFFE\<rparr>"
        "''bb''" "''bb''" ex_fs "''aaaaaaaaa''"] fs
    by (simp add: ex_file_sink_def sink_view_def ex_fs_def)
  show ?thesis using a b c d e by simp
qed

end
